theory Spec2Isabelle
  imports Complex_Main
begin

section \<open>Wavetable synthesis: analysis and blending\<close>

text \<open>
  A shallow embedding of the analysis and blending code of the wavetable synthesiser
  (the audio module: \<open>getWindowStartIndicesForCount\<close>, \<open>singleCycleToFourier\<close>,
  \<open>extractSingleCycle\<close>, \<open>rotateToRisingZeroCrossing\<close> and the class
  \<open>WavetableOscillator\<close>).

  Numbers. JavaScript numbers are IEEE doubles and a \<open>Float32Array\<close> holds
  single-precision values. The embedding computes exactly: a finite number is a
  \<open>real\<close>, no operation rounds, and zero has no sign. Sample buffers and coefficient
  tables handed to the code hold finite numbers and are \<open>real list\<close>s. Where the code
  itself can produce a value that is not finite out of finite ones (a division by a
  length that is zero, a read past the end of a typed array) the value is a \<open>jsnum\<close>,
  which adds the two infinities and NaN. Counts and indices that the code keeps integral
  are \<open>int\<close> or \<open>nat\<close>. Typed arrays have no size limit here.
\<close>

subsection \<open>Numbers and errors\<close>

text \<open>
  A JavaScript number: a finite value, \<open>+Infinity\<close>, \<open>-Infinity\<close> or \<open>NaN\<close>.
\<close>

datatype jsnum = Fin real | PInf | NInf | NaN

text \<open>
  The exceptions the modelled code can meet, both raised by the host and not by a
  \<open>throw\<close> statement (the code has none): \<open>new Float32Array(n)\<close> throws a \<open>RangeError\<close>
  when \<open>n\<close> is negative or infinite, and \<open>setPeriodicWave(undefined)\<close> throws a
  \<open>TypeError\<close>.
\<close>

datatype js_error = RangeError | TypeError

text \<open>
  Multiplication and division of JavaScript numbers as IEEE 754 defines them on
  infinities and NaN (\<open>\<infinity> * 0 = NaN\<close>, \<open>0 / 0 = NaN\<close>, \<open>x / 0 = \<plusminus>\<infinity>\<close> for \<open>x \<noteq> 0\<close>).
  A zero divisor counts as \<open>+0\<close>.
\<close>

fun jmul :: "jsnum \<Rightarrow> jsnum \<Rightarrow> jsnum" where
  "jmul (Fin a) (Fin b) = Fin (a * b)"
| "jmul NaN y = NaN"
| "jmul x NaN = NaN"
| "jmul (Fin a) PInf = (if a = 0 then NaN else if 0 < a then PInf else NInf)"
| "jmul (Fin a) NInf = (if a = 0 then NaN else if 0 < a then NInf else PInf)"
| "jmul PInf (Fin b) = (if b = 0 then NaN else if 0 < b then PInf else NInf)"
| "jmul NInf (Fin b) = (if b = 0 then NaN else if 0 < b then NInf else PInf)"
| "jmul PInf PInf = PInf"
| "jmul PInf NInf = NInf"
| "jmul NInf PInf = NInf"
| "jmul NInf NInf = PInf"

fun jdiv :: "jsnum \<Rightarrow> jsnum \<Rightarrow> jsnum" where
  "jdiv (Fin a) (Fin b) =
     (if b \<noteq> 0 then Fin (a / b) else if a = 0 then NaN else if 0 < a then PInf else NInf)"
| "jdiv NaN y = NaN"
| "jdiv x NaN = NaN"
| "jdiv (Fin a) PInf = Fin 0"
| "jdiv (Fin a) NInf = Fin 0"
| "jdiv PInf (Fin b) = (if 0 \<le> b then PInf else NInf)"
| "jdiv NInf (Fin b) = (if 0 \<le> b then NInf else PInf)"
| "jdiv PInf PInf = NaN"
| "jdiv PInf NInf = NaN"
| "jdiv NInf PInf = NaN"
| "jdiv NInf NInf = NaN"

text \<open>
  \<open>Math.floor\<close>, \<open>Math.max\<close>, \<open>Math.min\<close> and \<open>Math.abs\<close>: NaN is contagious, the
  infinities are the ends of the order. \<open>jgt a b\<close> is the comparison \<open>a > b\<close>, false
  whenever an operand is NaN.
\<close>

fun jfloor :: "jsnum \<Rightarrow> jsnum" where
  "jfloor (Fin a) = Fin (of_int \<lfloor>a\<rfloor>)"
| "jfloor x = x"

fun jmax :: "jsnum \<Rightarrow> jsnum \<Rightarrow> jsnum" where
  "jmax (Fin a) (Fin b) = Fin (max a b)"
| "jmax NaN y = NaN"
| "jmax x NaN = NaN"
| "jmax PInf y = PInf"
| "jmax x PInf = PInf"
| "jmax NInf y = y"
| "jmax x NInf = x"

fun jmin :: "jsnum \<Rightarrow> jsnum \<Rightarrow> jsnum" where
  "jmin (Fin a) (Fin b) = Fin (min a b)"
| "jmin NaN y = NaN"
| "jmin x NaN = NaN"
| "jmin NInf y = NInf"
| "jmin x NInf = NInf"
| "jmin PInf y = y"
| "jmin x PInf = x"

fun jabs :: "jsnum \<Rightarrow> jsnum" where
  "jabs (Fin a) = Fin \<bar>a\<bar>"
| "jabs PInf = PInf"
| "jabs NInf = PInf"
| "jabs NaN = NaN"

fun jgt :: "jsnum \<Rightarrow> jsnum \<Rightarrow> bool" where
  "jgt (Fin a) (Fin b) = (b < a)"
| "jgt NaN y = False"
| "jgt x NaN = False"
| "jgt NInf y = False"
| "jgt x PInf = False"
| "jgt PInf y = True"
| "jgt x NInf = True"

subsection \<open>Window segmenter\<close>

text \<open>
  The loop \<^verbatim>\<open>for (let i = 0; i < count; i++) starts.push(Math.min(i * step, totalLength - windowSize))\<close>
  of \<open>getWindowStartIndicesForCount\<close>, with the array \<open>starts\<close> as accumulator.
\<close>

function starts_loop :: "int \<Rightarrow> int \<Rightarrow> int \<Rightarrow> int \<Rightarrow> int \<Rightarrow> int list \<Rightarrow> int list" where
  "starts_loop totalLength windowSize count step i starts =
     (if i < count
      then starts_loop totalLength windowSize count step (i + 1)
             (starts @ [min (i * step) (totalLength - windowSize)])
      else starts)"
  by pat_completeness auto
termination
  by (relation "measure (\<lambda>(totalLength, windowSize, count, step, i, starts). nat (count - i))") auto

declare starts_loop.simps [simp del]

text \<open>
  \<open>Math.floor(usable / (count - 1))\<close> is taken on \<open>usable > 0\<close> and \<open>count - 1 \<ge> 1\<close>,
  where it is the integer quotient.
\<close>

definition getWindowStartIndicesForCount :: "int \<Rightarrow> int \<Rightarrow> int \<Rightarrow> int list" where
  "getWindowStartIndicesForCount totalLength windowSize count =
     (if count \<le> 1 then [0]
      else let usable = totalLength - windowSize in
        if usable \<le> 0 then [0]
        else let step = max 1 (usable div (count - 1)) in
          starts_loop totalLength windowSize count step 0 [])"

subsection \<open>Fourier codec\<close>

text \<open>
  A wavetable object \<open>{ real, imag }\<close>. The element type is a parameter: the codec's
  output may hold NaN (\<open>jsnum\<close>); the tables given to the oscillator are finite
  (\<open>real\<close>). The fields are named \<open>real_coef\<close> and \<open>imag_coef\<close> because \<open>real\<close> is
  taken in HOL.
\<close>

record 'a wavetable =
  real_coef :: "'a list"
  imag_coef :: "'a list"

text \<open>
  \<^verbatim>\<open>for (let n = 0; n < N; n++) mean += cycle[n];\<close>
\<close>

function mean_loop :: "real list \<Rightarrow> nat \<Rightarrow> real \<Rightarrow> real" where
  "mean_loop cycle n mean =
     (if n < length cycle then mean_loop cycle (n + 1) (mean + cycle ! n) else mean)"
  by pat_completeness auto
termination
  by (relation "measure (\<lambda>(cycle, n, mean). length cycle - n)") auto

declare mean_loop.simps [simp del]

text \<open>
  The inner loop of the codec, for one harmonic \<open>k\<close>; its state is \<open>(sumCos, sumSin)\<close>.
  The body runs only for \<open>n < N\<close>, so the division by \<open>N\<close> in \<open>angle\<close> is by a
  positive number.
\<close>

function sum_loop :: "real list \<Rightarrow> nat \<Rightarrow> nat \<Rightarrow> real \<times> real \<Rightarrow> real \<times> real" where
  "sum_loop cycle k n (sumCos, sumSin) =
     (if n < length cycle
      then let angle = (2 * pi * real k * real n) / real (length cycle);
               x = cycle ! n
           in sum_loop cycle k (n + 1) (sumCos + x * cos angle, sumSin + x * sin angle)
      else (sumCos, sumSin))"
  by pat_completeness auto
termination
  by (relation "measure (\<lambda>(cycle, k, n, s). length cycle - n)") auto

declare sum_loop.simps [simp del]

text \<open>
  The outer loop \<^verbatim>\<open>for (let k = 1; k < harmonics; k++)\<close>; its state is the pair of
  typed arrays. \<open>2 / N\<close> is a JavaScript division: it is \<open>+Infinity\<close> when \<open>N = 0\<close>.
\<close>

function coef_loop ::
  "real list \<Rightarrow> nat \<Rightarrow> nat \<Rightarrow> jsnum list \<times> jsnum list \<Rightarrow> jsnum list \<times> jsnum list" where
  "coef_loop cycle harmonics k (re, im) =
     (if k < harmonics
      then let (sumCos, sumSin) = sum_loop cycle k 0 (0, 0);
               N = Fin (real (length cycle))
           in coef_loop cycle harmonics (k + 1)
                (re[k := jmul (jdiv (Fin 2) N) (Fin sumCos)],
                 im[k := jmul (jdiv (Fin 2) N) (Fin sumSin)])
      else (re, im))"
  by pat_completeness auto
termination
  by (relation "measure (\<lambda>(cycle, harmonics, k, s). harmonics - k)") auto

declare coef_loop.simps [simp del]

text \<open>
  \<open>singleCycleToFourier(cycle, harmonics)\<close>. \<open>new Float32Array(harmonics)\<close> throws for a
  negative length and gives zeros otherwise. A store at an index past the end of a typed
  array is dropped, which is what list update does.
\<close>

definition singleCycleToFourier :: "real list \<Rightarrow> int \<Rightarrow> js_error + jsnum wavetable" where
  "singleCycleToFourier cycle harmonics =
     (if harmonics < 0 then Inl RangeError
      else let N = Fin (real (length cycle));
               real0 = replicate (nat harmonics) (Fin 0);
               imag0 = replicate (nat harmonics) (Fin 0);
               mean = mean_loop cycle 0 0;
               real1 = real0[0 := jdiv (Fin mean) N];
               (re, im) = coef_loop cycle (nat harmonics) 1 (real1, imag0)
           in Inr \<lparr>real_coef = re, imag_coef = im\<rparr>)"

subsection \<open>Wavetable oscillator\<close>

text \<open>
  A \<open>PeriodicWave\<close> is an object of the host audio API. It is modelled by the two
  coefficient sequences it was created from; the host's own checks and its
  normalisation are outside the code and are not modelled.
\<close>

datatype periodic_wave = PeriodicWave (pw_real: "real list") (pw_imag: "real list")

definition createPeriodicWave :: "real list \<Rightarrow> real list \<Rightarrow> periodic_wave" where
  "createPeriodicWave re im = PeriodicWave re im"

text \<open>
  The state of a \<open>WavetableOscillator\<close>: \<open>this.wavetables\<close>, \<open>this._periodicWaves\<close>,
  \<open>this._position\<close>, and for \<open>this.oscillator\<close> the wave last given to
  \<open>setPeriodicWave\<close> (the live spectrum), if any.
\<close>

record oscillator_state =
  wavetables :: "real wavetable list"
  periodicWaves :: "periodic_wave list"
  position :: real
  oscillator :: "periodic_wave option"

text \<open>
  The constructor, on an array of wavetables (the frequency option only touches the host
  node and is left out).
\<close>

definition WavetableOscillator :: "real wavetable list \<Rightarrow> oscillator_state" where
  "WavetableOscillator wts =
     (let waves = map (\<lambda>wt. createPeriodicWave (real_coef wt) (imag_coef wt)) wts
      in \<lparr>wavetables = wts,
          periodicWaves = waves,
          position = 0,
          oscillator = (if 0 < length waves then Some (waves ! 0) else None)\<rparr>)"

text \<open>
  The argument of \<open>addWavetable\<close> is any JavaScript value: absent (\<open>undefined\<close> or
  \<open>null\<close>, \<open>None\<close> here) or an object whose \<open>real\<close> and \<open>imag\<close> properties may each
  be missing. A typed array, even an empty one, is truthy.
\<close>

record wavetable_arg =
  arg_real :: "real list option"
  arg_imag :: "real list option"

text \<open>
  \<open>addWavetable(wavetable)\<close>. After the two pushes, \<open>this._periodicWaves[lastIndex]\<close>
  is read at the last index of \<open>this.wavetables\<close>; were the two arrays of different
  lengths the read could give \<open>undefined\<close>, which \<open>setPeriodicWave\<close> rejects.
\<close>

definition addWavetable :: "oscillator_state \<Rightarrow> wavetable_arg option \<Rightarrow> js_error + oscillator_state" where
  "addWavetable self wavetable =
     (case wavetable of
        None \<Rightarrow> Inr self
      | Some wt \<Rightarrow>
          (case arg_real wt of
             None \<Rightarrow> Inr self
           | Some re \<Rightarrow>
               (case arg_imag wt of
                  None \<Rightarrow> Inr self
                | Some im \<Rightarrow>
                    (let self1 = self\<lparr>wavetables := wavetables self @ [\<lparr>real_coef = re, imag_coef = im\<rparr>]\<rparr>;
                         wave = createPeriodicWave re im;
                         self2 = self1\<lparr>periodicWaves := periodicWaves self1 @ [wave]\<rparr>;
                         lastIndex = int (length (wavetables self2)) - 1
                     in if 1 \<le> position self2 \<and> 0 \<le> lastIndex
                        then (if nat lastIndex < length (periodicWaves self2)
                              then Inr (self2\<lparr>oscillator := Some (periodicWaves self2 ! nat lastIndex)\<rparr>)
                              else Inl TypeError)
                        else Inr self2))))"

text \<open>
  \<^verbatim>\<open>n < xs.length ? xs[n] : 0\<close>, the guarded read of the blend loop.
\<close>

definition coef_or_zero :: "real list \<Rightarrow> nat \<Rightarrow> real" where
  "coef_or_zero xs n = (if n < length xs then xs ! n else 0)"

text \<open>
  The blend loop \<^verbatim>\<open>for (let n = 0; n < maxLen; n++)\<close> of \<open>setPosition\<close>; its state is
  the pair of typed arrays \<open>real\<close> and \<open>imag\<close>.
\<close>

function blend_loop ::
  "real wavetable \<Rightarrow> real wavetable \<Rightarrow> real \<Rightarrow> nat \<Rightarrow> nat \<Rightarrow> real list \<times> real list
     \<Rightarrow> real list \<times> real list" where
  "blend_loop wt0 wt1 t maxLen n (re, im) =
     (if n < maxLen
      then let r0 = coef_or_zero (real_coef wt0) n;
               i0v = coef_or_zero (imag_coef wt0) n;
               r1 = coef_or_zero (real_coef wt1) n;
               i1v = coef_or_zero (imag_coef wt1) n
           in blend_loop wt0 wt1 t maxLen (n + 1)
                (re[n := r0 * (1 - t) + r1 * t], im[n := i0v * (1 - t) + i1v * t])
      else (re, im))"
  by pat_completeness auto
termination
  by (relation "measure (\<lambda>(wt0, wt1, t, maxLen, n, s). maxLen - n)") auto

declare blend_loop.simps [simp del]

text \<open>
  \<open>setPosition(position)\<close>, for a finite \<open>position\<close>. Then \<open>0 \<le> i0 \<le> i1 \<le> lastIndex\<close>
  (lemma \<open>blend_indices_in_range\<close> below), so both reads of \<open>this.wavetables\<close> are in
  range and nothing is thrown. The store to \<open>this._position\<close> leaves the two arrays of
  the object as they are, so they are read from \<open>self\<close>.
\<close>

definition setPosition :: "oscillator_state \<Rightarrow> real \<Rightarrow> oscillator_state" where
  "setPosition self pos =
     (let clamped = max 0 (min 1 pos);
          self1 = self\<lparr>position := clamped\<rparr>;
          numWaves = length (wavetables self)
      in if numWaves = 0 then self1
         else if numWaves = 1
         then (if 0 < length (periodicWaves self)
               then self1\<lparr>oscillator := Some (periodicWaves self ! 0)\<rparr>
               else self1)
         else
           (let lastIndex = int numWaves - 1;
                scaled = clamped * real_of_int lastIndex;
                i0 = \<lfloor>scaled\<rfloor>;
                i1 = min (i0 + 1) lastIndex;
                t = scaled - real_of_int i0;
                wt0 = wavetables self ! nat i0;
                wt1 = wavetables self ! nat i1;
                maxLen = max (max (max (length (real_coef wt0)) (length (imag_coef wt0)))
                                  (length (real_coef wt1)))
                             (length (imag_coef wt1));
                (re, im) = blend_loop wt0 wt1 t maxLen 0 (replicate maxLen 0, replicate maxLen 0);
                blended = createPeriodicWave re im
            in self1\<lparr>oscillator := Some blended\<rparr>))"

subsection \<open>Single-cycle extraction\<close>

text \<open>
  The test \<^verbatim>\<open>s0 <= 0 && s1 > 0\<close> on the samples at \<open>i\<close> and \<open>i + 1\<close>: a rising
  zero-crossing. Both crossing searches use it.
\<close>

definition rising :: "real list \<Rightarrow> nat \<Rightarrow> bool" where
  "rising window i = (window ! i \<le> 0 \<and> 0 < window ! (i + 1))"

text \<open>
  The inner loop of the lag search, \<^verbatim>\<open>for (let i = 0; i < limit; i++) sum += window[i] * window[i + lag]\<close>
  with \<open>limit = window.length - lag\<close>; the accumulator \<open>acc\<close> is the variable \<open>sum\<close>
  (a constant of HOL). The lag is at least 2 here; every read is in range.
\<close>

function autocorr_loop :: "real list \<Rightarrow> nat \<Rightarrow> nat \<Rightarrow> real \<Rightarrow> real" where
  "autocorr_loop window lag i acc =
     (if int i < int (length window) - int lag
      then autocorr_loop window lag (i + 1) (acc + window ! i * window ! (i + lag))
      else acc)"
  by pat_completeness auto
termination
  by (relation "measure (\<lambda>(window, lag, i, acc). length window - lag - i)") auto

declare autocorr_loop.simps [simp del]

text \<open>
  The lag search \<^verbatim>\<open>for (let lag = minLag; lag <= maxLag; lag++)\<close>, entered with integral
  bounds; its state is \<open>(bestLag, bestScore)\<close>, and \<open>bestScore\<close> starts at \<open>-Infinity\<close>.
\<close>

function lag_loop :: "real list \<Rightarrow> int \<Rightarrow> int \<Rightarrow> int \<times> jsnum \<Rightarrow> int \<times> jsnum" where
  "lag_loop window maxLag lag (bestLag, bestScore) =
     (if lag \<le> maxLag
      then let score = autocorr_loop window (nat lag) 0 0
           in if jgt (Fin score) bestScore
              then lag_loop window maxLag (lag + 1) (lag, Fin score)
              else lag_loop window maxLag (lag + 1) (bestLag, bestScore)
      else (bestLag, bestScore))"
  by pat_completeness auto
termination
  by (relation "measure (\<lambda>(window, maxLag, lag, s). nat (maxLag + 1 - lag))") auto

declare lag_loop.simps [simp del]

text \<open>
  \<open>minLag\<close> and \<open>maxLag\<close> of \<open>extractSingleCycle\<close>. The quotients are JavaScript
  divisions: a zero frequency gives an infinity or NaN.
\<close>

definition minLag :: "real \<Rightarrow> real \<Rightarrow> jsnum" where
  "minLag sampleRate maxFrequency =
     jmax (Fin 2) (jfloor (jdiv (Fin sampleRate) (Fin maxFrequency)))"

definition maxLag :: "real list \<Rightarrow> real \<Rightarrow> real \<Rightarrow> jsnum" where
  "maxLag window sampleRate minFrequency =
     jmin (Fin (real_of_int (int (length window) - 2)))
          (jfloor (jdiv (Fin sampleRate) (Fin minFrequency)))"

text \<open>
  \<open>bestLag\<close> after the search. The loop condition \<open>lag <= maxLag\<close> is false at once
  unless both bounds are finite, and then \<open>bestLag\<close> keeps its initial value \<open>minLag\<close>.
  Finite bounds are whole numbers (a floor, or a length minus 2).
\<close>

definition bestLag :: "real list \<Rightarrow> jsnum \<Rightarrow> jsnum \<Rightarrow> jsnum" where
  "bestLag window mn mx =
     (case mn of
        Fin a \<Rightarrow>
          (case mx of
             Fin b \<Rightarrow> Fin (of_int (fst (lag_loop window \<lfloor>b\<rfloor> \<lfloor>a\<rfloor> (\<lfloor>a\<rfloor>, NInf))))
           | _ \<Rightarrow> mn)
      | _ \<Rightarrow> mn)"

text \<open>
  The period estimate: the lines of \<open>extractSingleCycle\<close> from \<open>minLag\<close> to
  \<^verbatim>\<open>const period = Math.max(2, bestLag)\<close>.
\<close>

definition period :: "real list \<Rightarrow> real \<Rightarrow> real \<Rightarrow> real \<Rightarrow> jsnum" where
  "period window sampleRate minFrequency maxFrequency =
     jmax (Fin 2)
       (bestLag window (minLag sampleRate maxFrequency) (maxLag window sampleRate minFrequency))"

text \<open>
  The search for a rising zero-crossing, \<^verbatim>\<open>for (let i = 0; i < searchLimit; i++)\<close> with
  its \<open>break\<close>; the result is \<open>startIndex\<close>, which stays 0 when nothing is found.
\<close>

function crossing_loop :: "real list \<Rightarrow> int \<Rightarrow> nat \<Rightarrow> nat" where
  "crossing_loop window searchLimit i =
     (if int i < searchLimit
      then (if rising window i then i + 1 else crossing_loop window searchLimit (i + 1))
      else 0)"
  by pat_completeness auto
termination
  by (relation "measure (\<lambda>(window, searchLimit, i). nat (searchLimit - int i))") auto

declare crossing_loop.simps [simp del]

text \<open>
  \<^verbatim>\<open>for (let i = 0; i < period; i++) cycle[i] = window[startIndex + i]\<close>, with \<open>n\<close>
  for the period. A read past the end of \<open>window\<close> gives \<open>undefined\<close>, which a
  \<open>Float32Array\<close> stores as NaN.
\<close>

function cycle_loop :: "real list \<Rightarrow> nat \<Rightarrow> nat \<Rightarrow> nat \<Rightarrow> jsnum list \<Rightarrow> jsnum list" where
  "cycle_loop window startIndex n i cycle =
     (if i < n
      then cycle_loop window startIndex n (i + 1)
             (cycle[i := (if startIndex + i < length window
                          then Fin (window ! (startIndex + i)) else NaN)])
      else cycle)"
  by pat_completeness auto
termination
  by (relation "measure (\<lambda>(window, startIndex, n, i, cycle). n - i)") auto

declare cycle_loop.simps [simp del]

text \<open>
  The peak search and the scaling loop of the normalisation.
\<close>

function peak_loop :: "jsnum list \<Rightarrow> nat \<Rightarrow> jsnum \<Rightarrow> jsnum" where
  "peak_loop cycle i peak =
     (if i < length cycle
      then let a = jabs (cycle ! i)
           in peak_loop cycle (i + 1) (if jgt a peak then a else peak)
      else peak)"
  by pat_completeness auto
termination
  by (relation "measure (\<lambda>(cycle, i, peak). length cycle - i)") auto

declare peak_loop.simps [simp del]

function scale_loop :: "jsnum list \<Rightarrow> jsnum \<Rightarrow> nat \<Rightarrow> jsnum list" where
  "scale_loop cycle scale i =
     (if i < length cycle
      then scale_loop (cycle[i := jmul (cycle ! i) scale]) scale (i + 1)
      else cycle)"
  by pat_completeness auto
termination
  by (relation "measure (\<lambda>(cycle, scale, i). length cycle - i)") auto

declare scale_loop.simps [simp del]

text \<open>
  \<open>extractSingleCycle(samples, sampleRate, { minFrequency, maxFrequency })\<close>. With a finite
  period \<open>p\<close> the code runs as written. With \<open>period = NaN\<close> every comparison is false
  and \<open>new Float32Array(NaN)\<close> has length 0, so the empty cycle is returned; with an
  infinite period \<open>new Float32Array(period)\<close> throws.
\<close>

definition extractSingleCycle :: "real list \<Rightarrow> real \<Rightarrow> real \<Rightarrow> real \<Rightarrow> js_error + jsnum list" where
  "extractSingleCycle samples sampleRate minFrequency maxFrequency =
     (if samples = [] then Inr [Fin 0]
      else
        let windowSize = min (length samples) 16384;
            window = take windowSize samples
        in case period window sampleRate minFrequency maxFrequency of
             Fin p \<Rightarrow>
               (let searchLimit = int (length window) - \<lfloor>p\<rfloor> - 2;
                    found = crossing_loop window searchLimit 0;
                    startIndex = (if int (length window) < int found + \<lfloor>p\<rfloor> then 0 else found);
                    cycle0 = replicate (nat \<lfloor>p\<rfloor>) (Fin 0);
                    cycle1 = cycle_loop window startIndex (nat \<lfloor>p\<rfloor>) 0 cycle0;
                    peak = peak_loop cycle1 0 (Fin 0)
                in if jgt peak (Fin 0)
                   then Inr (scale_loop cycle1 (jdiv (Fin 1) peak) 0)
                   else Inr cycle1)
           | NaN \<Rightarrow> Inr []
           | PInf \<Rightarrow> Inl RangeError
           | NInf \<Rightarrow> Inl RangeError)"

subsection \<open>Zero-crossing alignment\<close>

text \<open>
  \<open>rotateToRisingZeroCrossing\<close> allocates its result, and whether it touches its
  argument is a question about the store. Typed arrays therefore live in a heap, the list
  of all arrays allocated so far; a reference is an index into it, and an allocation
  (\<open>new Float32Array(N)\<close>, \<open>arr.slice()\<close>) appends.
\<close>

type_synonym heap = "real list list"

text \<open>
  The search \<^verbatim>\<open>for (let i = 0; i < N - 1; i++)\<close> with its \<open>break\<close>; the result is \<open>idx\<close>,
  which stays \<open>-1\<close> when nothing is found. The loop only reads.
\<close>

function idx_loop :: "real list \<Rightarrow> nat \<Rightarrow> int" where
  "idx_loop arr i =
     (if int i < int (length arr) - 1
      then (if rising arr i then int i + 1 else idx_loop arr (i + 1))
      else - 1)"
  by pat_completeness auto
termination
  by (relation "measure (\<lambda>(arr, i). length arr - i)") auto

declare idx_loop.simps [simp del]

text \<open>
  The two copy loops, \<^verbatim>\<open>for (let i = idx; i < N; i++) out[p++] = arr[i]\<close> and
  \<^verbatim>\<open>for (let i = 0; i < idx; i++) out[p++] = arr[i]\<close>: one loop from \<open>i\<close> up to \<open>limit\<close>,
  on the heap, where \<open>arr\<close> and \<open>out\<close> are references. It returns the heap and \<open>p\<close>.
\<close>

function copy_loop :: "heap \<Rightarrow> nat \<Rightarrow> nat \<Rightarrow> nat \<Rightarrow> nat \<Rightarrow> nat \<Rightarrow> heap \<times> nat" where
  "copy_loop h arr out i limit p =
     (if i < limit
      then copy_loop (h[out := (h ! out)[p := h ! arr ! i]]) arr out (i + 1) limit (p + 1)
      else (h, p))"
  by pat_completeness auto
termination
  by (relation "measure (\<lambda>(h, arr, out, i, limit, p). limit - i)") auto

declare copy_loop.simps [simp del]

text \<open>
  \<open>rotateToRisingZeroCrossing(arr)\<close>, from a heap and a reference to the new heap and the
  reference returned.
\<close>

definition rotateToRisingZeroCrossing :: "heap \<Rightarrow> nat \<Rightarrow> heap \<times> nat" where
  "rotateToRisingZeroCrossing h arr =
     (let N = length (h ! arr);
          idx = idx_loop (h ! arr) 0
      in if idx \<le> 0 then (h @ [h ! arr], length h)
         else
           (let out = length h;
                h1 = h @ [replicate N 0];
                (h2, p) = copy_loop h1 arr out (nat idx) N 0;
                (h3, p') = copy_loop h2 arr out 0 (nat idx) p
            in (h3, out)))"

section \<open>Properties\<close>

subsection \<open>Window segmenter\<close>

lemma starts_loop_eq:
  "starts_loop totalLength windowSize count step i starts =
     starts @ map (\<lambda>j. min (j * step) (totalLength - windowSize)) [i..count - 1]"
proof (induction totalLength windowSize count step i starts rule: starts_loop.induct)
  case (1 totalLength windowSize count step i starts)
  show ?case
  proof (cases "i < count")
    case True
    then have "[i..count - 1] = i # [i + 1..count - 1]"
      by (simp add: upto_rec1)
    with True "1" show ?thesis
      by (simp add: starts_loop.simps [of _ _ _ _ i])
  next
    case False
    then show ?thesis
      by (simp add: starts_loop.simps [of _ _ _ _ i])
  qed
qed

lemma window_starts_map:
  assumes "1 < count" and "0 < totalLength - windowSize"
  shows "getWindowStartIndicesForCount totalLength windowSize count =
           map (\<lambda>j. min (j * max 1 ((totalLength - windowSize) div (count - 1)))
                        (totalLength - windowSize)) [0..count - 1]"
  using assms by (simp add: getWindowStartIndicesForCount_def Let_def starts_loop_eq)

lemma sorted_min_mult_upto:
  fixes step u :: int
  assumes "0 \<le> step"
  shows "sorted (map (\<lambda>j. min (j * step) u) [a..b])"
proof -
  have "sorted_wrt (\<lambda>x y. min (x * step) u \<le> min (y * step) u) [a..b]"
  proof (rule sorted_wrt_mono_rel [OF _ sorted_upto])
    fix x y :: int
    assume "x \<le> y"
    then have "x * step \<le> y * step"
      using assms by (rule mult_right_mono)
    then show "min (x * step) u \<le> min (y * step) u"
      by (rule min.mono) simp
  qed
  then show ?thesis
    by (simp only: sorted_map)
qed

text \<open>
  C3. If \<open>count \<le> 1\<close> or \<open>totalLength - windowSize \<le> 0\<close> the segmenter returns exactly
  \<open>[0]\<close>. Otherwise it returns exactly \<open>count\<close> offsets, in non-decreasing order, the
  first of them 0, and every offset \<open>s\<close> has \<open>s + windowSize \<le> totalLength\<close>.
\<close>

theorem window_starts_offsets:
  "(count \<le> 1 \<or> totalLength - windowSize \<le> 0 \<longrightarrow>
      getWindowStartIndicesForCount totalLength windowSize count = [0]) \<and>
   (\<not> (count \<le> 1 \<or> totalLength - windowSize \<le> 0) \<longrightarrow>
      int (length (getWindowStartIndicesForCount totalLength windowSize count)) = count \<and>
      sorted (getWindowStartIndicesForCount totalLength windowSize count) \<and>
      hd (getWindowStartIndicesForCount totalLength windowSize count) = 0 \<and>
      (\<forall>s \<in> set (getWindowStartIndicesForCount totalLength windowSize count).
         s + windowSize \<le> totalLength))"
proof (cases "count \<le> 1 \<or> totalLength - windowSize \<le> 0")
  case True
  then show ?thesis
    by (auto simp: getWindowStartIndicesForCount_def)
next
  case False
  then have c: "1 < count" and u: "0 < totalLength - windowSize"
    by auto
  let ?step = "max 1 ((totalLength - windowSize) div (count - 1))"
  let ?f = "\<lambda>j. min (j * ?step) (totalLength - windowSize)"
  have eq: "getWindowStartIndicesForCount totalLength windowSize count = map ?f [0..count - 1]"
    using c u by (rule window_starts_map)
  have len: "int (length (map ?f [0..count - 1])) = count"
    using c by simp
  have srt: "sorted (map ?f [0..count - 1])"
    by (rule sorted_min_mult_upto) simp
  have "[0..count - 1] = 0 # [1..count - 1]"
    using c by (simp add: upto_rec1)
  then have first: "hd (map ?f [0..count - 1]) = 0"
    using u by simp
  have fits: "\<forall>s \<in> set (map ?f [0..count - 1]). s + windowSize \<le> totalLength"
    by auto
  from False len srt first fits show ?thesis
    unfolding eq by blast
qed

theorem window_starts_offsets_witness:
  "\<not> ((10::int) \<le> 1 \<or> (10000::int) - 2048 \<le> 0) \<and>
   getWindowStartIndicesForCount 10000 2048 10 =
     [0, 883, 1766, 2649, 3532, 4415, 5298, 6181, 7064, 7947] \<and>
   int (length (getWindowStartIndicesForCount 10000 2048 10)) = 10 \<and>
   sorted (getWindowStartIndicesForCount 10000 2048 10) \<and>
   hd (getWindowStartIndicesForCount 10000 2048 10) = 0 \<and>
   list_all (\<lambda>s. s + 2048 \<le> 10000) (getWindowStartIndicesForCount 10000 2048 10) \<and>
   ((5::int) \<le> 1 \<or> (1000::int) - 2048 \<le> 0) \<and>
   getWindowStartIndicesForCount 1000 2048 5 = [0]"
proof -
  have v: "getWindowStartIndicesForCount 10000 2048 10 =
             [0, 883, 1766, 2649, 3532, 4415, 5298, 6181, 7064, 7947]"
    by (simp add: getWindowStartIndicesForCount_def starts_loop.simps)
  show ?thesis
    using window_starts_offsets [of 10 10000 2048] window_starts_offsets [of 5 1000 2048]
    by (simp add: v)
qed

subsection \<open>Fourier codec\<close>

lemma mean_loop_eq: "mean_loop cycle n mean = mean + (\<Sum>i = n..<length cycle. cycle ! i)"
proof (induction cycle n mean rule: mean_loop.induct)
  case (1 cycle n mean)
  show ?case
  proof (cases "n < length cycle")
    case True
    with "1" show ?thesis
      by (simp add: mean_loop.simps [of cycle n] sum.atLeast_Suc_lessThan)
  next
    case False
    then show ?thesis
      by (simp add: mean_loop.simps [of cycle n])
  qed
qed

lemma sum_loop_eq:
  "sum_loop cycle k n (sumCos, sumSin) =
     (sumCos + (\<Sum>i = n..<length cycle.
                  cycle ! i * cos (2 * pi * real k * real i / real (length cycle))),
      sumSin + (\<Sum>i = n..<length cycle.
                  cycle ! i * sin (2 * pi * real k * real i / real (length cycle))))"
proof (induction cycle k n "(sumCos, sumSin)" arbitrary: sumCos sumSin rule: sum_loop.induct)
  case (1 cycle k n sumCos sumSin)
  show ?case
  proof (cases "n < length cycle")
    case True
    with "1" show ?thesis
      by (simp add: sum_loop.simps [of cycle k n] sum.atLeast_Suc_lessThan Let_def)
  next
    case False
    then show ?thesis
      by (simp add: sum_loop.simps [of cycle k n])
  qed
qed

lemma coef_loop_eq:
  assumes "length re = harmonics" and "length im = harmonics"
  shows "coef_loop cycle harmonics k (re, im) =
     (map (\<lambda>j. if k \<le> j
                then jmul (jdiv (Fin 2) (Fin (real (length cycle))))
                       (Fin (fst (sum_loop cycle j 0 (0, 0))))
                else re ! j) [0..<harmonics],
      map (\<lambda>j. if k \<le> j
                then jmul (jdiv (Fin 2) (Fin (real (length cycle))))
                       (Fin (snd (sum_loop cycle j 0 (0, 0))))
                else im ! j) [0..<harmonics])"
proof -
  define cr where
    "cr j = jmul (jdiv (Fin 2) (Fin (real (length cycle)))) (Fin (fst (sum_loop cycle j 0 (0, 0))))"
    for j
  define ci where
    "ci j = jmul (jdiv (Fin 2) (Fin (real (length cycle)))) (Fin (snd (sum_loop cycle j 0 (0, 0))))"
    for j
  have step: "coef_loop cycle harmonics k (re, im) =
      (if k < harmonics
       then coef_loop cycle harmonics (k + 1) (re[k := cr k], im[k := ci k])
       else (re, im))" for k re im
    by (simp add: coef_loop.simps [of cycle harmonics k] cr_def ci_def split: prod.split)
  have "coef_loop cycle harmonics k (re, im) =
     (map (\<lambda>j. if k \<le> j then cr j else re ! j) [0..<harmonics],
      map (\<lambda>j. if k \<le> j then ci j else im ! j) [0..<harmonics])"
    using assms
  proof (induction "harmonics - k" arbitrary: k re im)
    case 0
    then have "\<not> k < harmonics"
      by simp
    with "0.prems" show ?case
      by (auto simp: step [of k] intro!: nth_equalityI)
  next
    case (Suc d)
    then have lt: "k < harmonics" and d: "d = harmonics - (k + 1)"
      by simp_all
    have len: "length (re[k := cr k]) = harmonics" "length (im[k := ci k]) = harmonics"
      using Suc.prems by simp_all
    have "coef_loop cycle harmonics k (re, im) =
            coef_loop cycle harmonics (k + 1) (re[k := cr k], im[k := ci k])"
      using lt by (simp add: step [of k])
    also have "\<dots> =
       (map (\<lambda>j. if k + 1 \<le> j then cr j else re[k := cr k] ! j) [0..<harmonics],
        map (\<lambda>j. if k + 1 \<le> j then ci j else im[k := ci k] ! j) [0..<harmonics])"
      using Suc.hyps(1) [OF d len] .
    also have "\<dots> =
       (map (\<lambda>j. if k \<le> j then cr j else re ! j) [0..<harmonics],
        map (\<lambda>j. if k \<le> j then ci j else im ! j) [0..<harmonics])"
    proof -
      have "(if k + 1 \<le> j then cr j else re[k := cr k] ! j) = (if k \<le> j then cr j else re ! j)"
        and "(if k + 1 \<le> j then ci j else im[k := ci k] ! j) = (if k \<le> j then ci j else im ! j)"
        if "j < harmonics" for j
        using that Suc.prems by (cases "j = k"; simp)+
      then show ?thesis
        by simp
    qed
    finally show ?case .
  qed
  then show ?thesis
    by (simp only: cr_def ci_def)
qed


lemma codec_value:
  assumes "0 \<le> harmonics"
  shows "singleCycleToFourier cycle harmonics =
     Inr \<lparr>real_coef =
            map (\<lambda>j. if 1 \<le> j
                      then jmul (jdiv (Fin 2) (Fin (real (length cycle))))
                             (Fin (fst (sum_loop cycle j 0 (0, 0))))
                      else jdiv (Fin (mean_loop cycle 0 0)) (Fin (real (length cycle))))
              [0..<nat harmonics],
          imag_coef =
            map (\<lambda>j. if 1 \<le> j
                      then jmul (jdiv (Fin 2) (Fin (real (length cycle))))
                             (Fin (snd (sum_loop cycle j 0 (0, 0))))
                      else Fin 0)
              [0..<nat harmonics]\<rparr>"
proof -
  let ?H = "nat harmonics"
  let ?real1 = "(replicate ?H (Fin 0))[0 := jdiv (Fin (mean_loop cycle 0 0)) (Fin (real (length cycle)))]"
  have "length ?real1 = ?H" and "length (replicate ?H (Fin 0)) = ?H"
    by simp_all
  note loop = coef_loop_eq [OF this, of cycle "Suc 0"]
  have r: "(if Suc 0 \<le> j then a else ?real1 ! j) =
           (if Suc 0 \<le> j then a else jdiv (Fin (mean_loop cycle 0 0)) (Fin (real (length cycle))))"
    if "j < ?H" for j a
    using that by (cases j) (simp_all del: jdiv.simps)
  have i: "(if Suc 0 \<le> j then a else replicate ?H (Fin 0) ! j) = (if Suc 0 \<le> j then a else Fin 0)"
    if "j < ?H" for j and a :: jsnum
    using that by simp
  show ?thesis
    using assms
    by (simp add: singleCycleToFourier_def Let_def loop r i del: jdiv.simps jmul.simps
        cong: map_cong)
qed

text \<open>
  C1. For a non-empty cycle of length \<open>N\<close> and a harmonics count \<open>H \<ge> 1\<close> the codec
  returns a pair of sequences of length \<open>H\<close>; \<open>real[0]\<close> is the mean of the cycle, and
  for \<open>1 \<le> k \<le> H - 1\<close>, \<open>real[k] = (2/N) \<Sum> cycle[n] cos (2 \<pi> k n / N)\<close> and
  \<open>imag[k] = (2/N) \<Sum> cycle[n] sin (2 \<pi> k n / N)\<close>, in exact arithmetic.
\<close>

theorem fourier_coefficients:
  assumes "cycle \<noteq> []" and "1 \<le> harmonics"
  shows "\<exists>w. singleCycleToFourier cycle harmonics = Inr w \<and>
     length (real_coef w) = nat harmonics \<and>
     length (imag_coef w) = nat harmonics \<and>
     real_coef w ! 0 = Fin (sum_list cycle / real (length cycle)) \<and>
     (\<forall>k. 1 \<le> k \<and> k < nat harmonics \<longrightarrow>
        real_coef w ! k =
          Fin (2 / real (length cycle) *
               (\<Sum>n<length cycle. cycle ! n * cos (2 * pi * real k * real n / real (length cycle)))) \<and>
        imag_coef w ! k =
          Fin (2 / real (length cycle) *
               (\<Sum>n<length cycle. cycle ! n * sin (2 * pi * real k * real n / real (length cycle)))))"
proof -
  have N: "real (length cycle) \<noteq> 0"
    using assms(1) by simp
  have H: "0 < nat harmonics"
    using assms(2) by simp
  have mean: "mean_loop cycle 0 0 = sum_list cycle"
    by (simp add: mean_loop_eq sum_list_sum_nth)
  have sums: "sum_loop cycle k 0 (0, 0) =
      ((\<Sum>n<length cycle. cycle ! n * cos (2 * pi * real k * real n / real (length cycle))),
       (\<Sum>n<length cycle. cycle ! n * sin (2 * pi * real k * real n / real (length cycle))))" for k
    by (simp add: sum_loop_eq lessThan_atLeast0)
  show ?thesis
    using assms(2) N H by (simp add: codec_value mean sums)
qed

theorem fourier_coefficients_witness:
  "[3, 1] \<noteq> ([] :: real list) \<and> (1::int) \<le> 2 \<and>
   singleCycleToFourier [3, 1] 2 = Inr \<lparr>real_coef = [Fin 2, Fin 2], imag_coef = [Fin 0, Fin 0]\<rparr>"
proof -
  have "singleCycleToFourier [3, 1] 2 =
          Inr \<lparr>real_coef = [Fin 2, Fin 2], imag_coef = [Fin 0, Fin 0]\<rparr>"
    by (simp add: singleCycleToFourier_def mean_loop.simps sum_loop.simps coef_loop.simps
        numeral_2_eq_2)
  then show ?thesis
    using fourier_coefficients [of "[3, 1]" 2] by simp
qed

text \<open>
  C4, as the code has it. The codec has no argument check and raises nothing for
  \<open>harmonics = 0\<close> or an empty cycle. With \<open>harmonics = 0\<close> both typed arrays have
  length 0, the store to \<open>real[0]\<close> is dropped, and the pair of empty sequences is
  returned. With an empty cycle and \<open>harmonics \<ge> 1\<close> the divisions by \<open>N = 0\<close> give
  \<open>0/0 = NaN\<close> and \<open>(2/0) * 0 = NaN\<close>: every entry is NaN but \<open>imag[0]\<close>, which stays 0.
\<close>

theorem codec_degenerate_returns:
  "(harmonics = 0 \<longrightarrow>
      singleCycleToFourier cycle harmonics = Inr \<lparr>real_coef = [], imag_coef = []\<rparr>) \<and>
   (cycle = [] \<and> 1 \<le> harmonics \<longrightarrow>
      singleCycleToFourier cycle harmonics =
        Inr \<lparr>real_coef = replicate (nat harmonics) NaN,
             imag_coef = Fin 0 # replicate (nat harmonics - 1) NaN\<rparr>)"
proof (intro conjI impI)
  assume "harmonics = 0"
  then show "singleCycleToFourier cycle harmonics = Inr \<lparr>real_coef = [], imag_coef = []\<rparr>"
    by (simp add: codec_value)
next
  assume a: "cycle = [] \<and> 1 \<le> harmonics"
  then obtain h where h: "nat harmonics = Suc h"
    by (cases "nat harmonics") auto
  have sums: "sum_loop [] k 0 (0, 0) = (0, 0)" for k
    by (simp add: sum_loop.simps)
  have mean: "mean_loop [] 0 0 = 0"
    by (simp add: mean_loop.simps)
  have re: "map (\<lambda>j. NaN) [0..<Suc h] = replicate (Suc h) NaN"
    by (simp add: map_replicate_const del: upt_Suc replicate_Suc)
  have im: "map (\<lambda>j. if Suc 0 \<le> j then NaN else Fin 0) [0..<Suc h] = Fin 0 # replicate h NaN"
    by (intro nth_equalityI) (auto simp: nth_Cons' simp del: upt_Suc)
  from a have "0 \<le> harmonics"
    by simp
  then show "singleCycleToFourier cycle harmonics =
        Inr \<lparr>real_coef = replicate (nat harmonics) NaN,
             imag_coef = Fin 0 # replicate (nat harmonics - 1) NaN\<rparr>"
    using a by (simp add: codec_value sums mean h re im del: upt_Suc replicate_Suc cong: if_cong)
qed

theorem codec_degenerate_returns_witness:
  "singleCycleToFourier [1, 2] 0 = Inr \<lparr>real_coef = [], imag_coef = []\<rparr> \<and>
   ([] :: real list) = [] \<and> (1::int) \<le> 3 \<and>
   singleCycleToFourier [] 3 = Inr \<lparr>real_coef = [NaN, NaN, NaN], imag_coef = [Fin 0, NaN, NaN]\<rparr>"
  using codec_degenerate_returns [of 0 "[1, 2]"] codec_degenerate_returns [of 3 "[]"]
  by (simp add: numeral_3_eq_3)

text \<open>
  The claim that these calls fail is refuted at \<open>harmonics = 0\<close> and at the empty cycle:
  both return a coefficient pair.
\<close>

theorem codec_no_invalid_argument_counterexample:
  "singleCycleToFourier [1, 2] 0 = Inr \<lparr>real_coef = [], imag_coef = []\<rparr> \<and>
   singleCycleToFourier [] 2 = Inr \<lparr>real_coef = [NaN, NaN], imag_coef = [Fin 0, NaN]\<rparr>"
  by (simp add: singleCycleToFourier_def mean_loop.simps sum_loop.simps coef_loop.simps
      numeral_2_eq_2)

subsection \<open>Wavetable oscillator\<close>

lemma blend_indices_in_range:
  fixes pos :: real and wts :: "'a list"
  assumes "2 \<le> length wts"
  defines "lastIndex \<equiv> int (length wts) - 1"
  defines "scaled \<equiv> max 0 (min 1 pos) * real_of_int lastIndex"
  shows "0 \<le> \<lfloor>scaled\<rfloor>" and "\<lfloor>scaled\<rfloor> \<le> lastIndex"
    and "nat \<lfloor>scaled\<rfloor> < length wts" and "nat (min (\<lfloor>scaled\<rfloor> + 1) lastIndex) < length wts"
proof -
  have l: "0 \<le> real_of_int lastIndex"
    using assms(1) by (simp add: lastIndex_def)
  have "0 \<le> scaled"
    unfolding scaled_def using l by (intro mult_nonneg_nonneg) simp_all
  then show lo: "0 \<le> \<lfloor>scaled\<rfloor>"
    by simp
  have "scaled \<le> 1 * real_of_int lastIndex"
    unfolding scaled_def using l by (intro mult_right_mono) simp_all
  then have "scaled \<le> real_of_int lastIndex"
    by simp
  then show hi: "\<lfloor>scaled\<rfloor> \<le> lastIndex"
    by (simp add: floor_le_iff)
  from lo hi show "nat \<lfloor>scaled\<rfloor> < length wts"
    unfolding lastIndex_def by linarith
  from lo hi show "nat (min (\<lfloor>scaled\<rfloor> + 1) lastIndex) < length wts"
    unfolding lastIndex_def by linarith
qed

lemma blend_loop_eq:
  assumes "length re = maxLen" and "length im = maxLen"
  shows "blend_loop wt0 wt1 t maxLen n (re, im) =
     (map (\<lambda>j. if n \<le> j
                then coef_or_zero (real_coef wt0) j * (1 - t) + coef_or_zero (real_coef wt1) j * t
                else re ! j) [0..<maxLen],
      map (\<lambda>j. if n \<le> j
                then coef_or_zero (imag_coef wt0) j * (1 - t) + coef_or_zero (imag_coef wt1) j * t
                else im ! j) [0..<maxLen])"
  using assms
proof (induction wt0 wt1 t maxLen n "(re, im)" arbitrary: re im rule: blend_loop.induct)
  case (1 wt0 wt1 t maxLen n re im)
  let ?r = "\<lambda>j. coef_or_zero (real_coef wt0) j * (1 - t) + coef_or_zero (real_coef wt1) j * t"
  let ?i = "\<lambda>j. coef_or_zero (imag_coef wt0) j * (1 - t) + coef_or_zero (imag_coef wt1) j * t"
  show ?case
  proof (cases "n < maxLen")
    case False
    with "1.prems" show ?thesis
      by (auto simp: blend_loop.simps [of _ _ _ _ n] intro!: nth_equalityI)
  next
    case True
    have "blend_loop wt0 wt1 t maxLen n (re, im) =
            blend_loop wt0 wt1 t maxLen (n + 1) (re[n := ?r n], im[n := ?i n])"
      using True by (simp add: blend_loop.simps [of _ _ _ _ n])
    also have "\<dots> =
       (map (\<lambda>j. if n + 1 \<le> j then ?r j else re[n := ?r n] ! j) [0..<maxLen],
        map (\<lambda>j. if n + 1 \<le> j then ?i j else im[n := ?i n] ! j) [0..<maxLen])"
      using "1.hyps" [OF True refl refl refl refl] "1.prems" by simp
    also have "\<dots> =
       (map (\<lambda>j. if n \<le> j then ?r j else re ! j) [0..<maxLen],
        map (\<lambda>j. if n \<le> j then ?i j else im ! j) [0..<maxLen])"
    proof -
      have "(if n + 1 \<le> j then ?r j else re[n := ?r n] ! j) = (if n \<le> j then ?r j else re ! j)"
        and "(if n + 1 \<le> j then ?i j else im[n := ?i n] ! j) = (if n \<le> j then ?i j else im ! j)"
        if "j < maxLen" for j
        using that "1.prems" by (cases "j = n"; simp)+
      then show ?thesis
        by simp
    qed
    finally show ?thesis .
  qed
qed

lemma setPosition_blend:
  assumes "2 \<le> length (wavetables self)"
    and "scaled = max 0 (min 1 pos) * real_of_int (int (length (wavetables self)) - 1)"
    and "t = scaled - real_of_int \<lfloor>scaled\<rfloor>"
    and "wt0 = wavetables self ! nat \<lfloor>scaled\<rfloor>"
    and "wt1 = wavetables self ! nat (min (\<lfloor>scaled\<rfloor> + 1) (int (length (wavetables self)) - 1))"
    and "maxLen = max (max (max (length (real_coef wt0)) (length (imag_coef wt0)))
                           (length (real_coef wt1)))
                      (length (imag_coef wt1))"
  shows "oscillator (setPosition self pos) =
     Some (PeriodicWave
       (map (\<lambda>n. coef_or_zero (real_coef wt0) n * (1 - t) + coef_or_zero (real_coef wt1) n * t)
          [0..<maxLen])
       (map (\<lambda>n. coef_or_zero (imag_coef wt0) n * (1 - t) + coef_or_zero (imag_coef wt1) n * t)
          [0..<maxLen]))"
proof -
  have n: "length (wavetables self) \<noteq> 0" "length (wavetables self) \<noteq> 1"
    using assms(1) by auto
  show ?thesis
    unfolding assms(2-6)
    apply (simp only: setPosition_def Let_def createPeriodicWave_def n if_False)
    apply (simp only: blend_loop_eq length_replicate prod.case le0 if_True)
    apply (cases self)
    apply (simp only: oscillator_state.simps)
    done
qed

text \<open>
  C8. For the two adjacent wavetables \<open>wt0\<close> and \<open>wt1\<close> that \<open>setPosition\<close> selects,
  of whatever lengths, the live spectrum has \<open>maxLen\<close> coefficients, the maximum of the
  four sequence lengths, and at every index \<open>n < maxLen\<close> it is
  \<open>real[n] = r0[n] * (1 - t) + r1[n] * t\<close> and \<open>imag[n] = i0v[n] * (1 - t) + i1v[n] * t\<close>,
  a coefficient past the end of its sequence counting as 0.
\<close>

theorem blend_ragged_interpolation:
  fixes self :: oscillator_state and pos :: real
  defines "lastIndex \<equiv> int (length (wavetables self)) - 1"
  defines "scaled \<equiv> max 0 (min 1 pos) * real_of_int lastIndex"
  defines "t \<equiv> scaled - real_of_int \<lfloor>scaled\<rfloor>"
  defines "wt0 \<equiv> wavetables self ! nat \<lfloor>scaled\<rfloor>"
  defines "wt1 \<equiv> wavetables self ! nat (min (\<lfloor>scaled\<rfloor> + 1) lastIndex)"
  defines "maxLen \<equiv> max (max (max (length (real_coef wt0)) (length (imag_coef wt0)))
                              (length (real_coef wt1)))
                         (length (imag_coef wt1))"
  assumes "2 \<le> length (wavetables self)"
  shows "\<exists>w. oscillator (setPosition self pos) = Some w \<and>
     length (pw_real w) = maxLen \<and> length (pw_imag w) = maxLen \<and>
     (\<forall>n<maxLen.
        pw_real w ! n =
          coef_or_zero (real_coef wt0) n * (1 - t) + coef_or_zero (real_coef wt1) n * t \<and>
        pw_imag w ! n =
          coef_or_zero (imag_coef wt0) n * (1 - t) + coef_or_zero (imag_coef wt1) n * t)"
proof -
  let ?re = "map (\<lambda>n. coef_or_zero (real_coef wt0) n * (1 - t) + coef_or_zero (real_coef wt1) n * t)
               [0..<maxLen]"
  let ?im = "map (\<lambda>n. coef_or_zero (imag_coef wt0) n * (1 - t) + coef_or_zero (imag_coef wt1) n * t)
               [0..<maxLen]"
  have "oscillator (setPosition self pos) = Some (PeriodicWave ?re ?im)"
    by (rule setPosition_blend [OF assms(7)])
      (simp_all only: maxLen_def wt1_def wt0_def t_def scaled_def lastIndex_def)
  moreover have "length ?re = maxLen" and "length ?im = maxLen"
    by simp_all
  moreover have "?re ! n =
      coef_or_zero (real_coef wt0) n * (1 - t) + coef_or_zero (real_coef wt1) n * t"
    and "?im ! n =
      coef_or_zero (imag_coef wt0) n * (1 - t) + coef_or_zero (imag_coef wt1) n * t"
    if "n < maxLen" for n
    using that by simp_all
  ultimately show ?thesis
    by (intro exI [of _ "PeriodicWave ?re ?im"]) simp
qed

theorem blend_ragged_interpolation_witness:
  "2 \<le> length (wavetables (WavetableOscillator
       [\<lparr>real_coef = [1, 2, 3, 4], imag_coef = [0, 1, 0, 1]\<rparr>,
        \<lparr>real_coef = [3, 0, 1, 0, 2, 4, 6, 8], imag_coef = [0, 0, 0, 0, 0, 0, 0, 2]\<rparr>])) \<and>
   oscillator (setPosition (WavetableOscillator
       [\<lparr>real_coef = [1, 2, 3, 4], imag_coef = [0, 1, 0, 1]\<rparr>,
        \<lparr>real_coef = [3, 0, 1, 0, 2, 4, 6, 8], imag_coef = [0, 0, 0, 0, 0, 0, 0, 2]\<rparr>]) (1 / 2)) =
     Some (PeriodicWave [2, 1, 2, 2, 1, 2, 3, 4] [0, 1 / 2, 0, 1 / 2, 0, 0, 0, 1])"
proof -
  let ?a = "\<lparr>real_coef = [1, 2, 3, 4], imag_coef = [0, 1, 0, 1 :: real]\<rparr>"
  let ?b = "\<lparr>real_coef = [3, 0, 1, 0, 2, 4, 6, 8], imag_coef = [0, 0, 0, 0, 0, 0, 0, 2 :: real]\<rparr>"
  let ?s = "WavetableOscillator [?a, ?b]"
  have wts: "wavetables ?s = [?a, ?b]"
    by (simp add: WavetableOscillator_def)
  have len: "2 \<le> length (wavetables ?s)"
    by (simp add: wts)
  have "oscillator (setPosition ?s (1 / 2)) =
          Some (PeriodicWave
            (map (\<lambda>n. coef_or_zero (real_coef ?a) n * (1 - 1 / 2) +
                       coef_or_zero (real_coef ?b) n * (1 / 2)) [0..<8])
            (map (\<lambda>n. coef_or_zero (imag_coef ?a) n * (1 - 1 / 2) +
                       coef_or_zero (imag_coef ?b) n * (1 / 2)) [0..<8]))"
    by (rule setPosition_blend [OF len, where scaled = "1 / 2"]) (simp_all add: wts)
  also have "\<dots> = Some (PeriodicWave [2, 1, 2, 2, 1, 2, 3, 4] [0, 1 / 2, 0, 1 / 2, 0, 0, 0, 1])"
    by code_simp
  finally have v: "oscillator (setPosition ?s (1 / 2)) =
          Some (PeriodicWave [2, 1, 2, 2, 1, 2, 3, 4] [0, 1 / 2, 0, 1 / 2, 0, 0, 0, 1])" .
  obtain w where w: "oscillator (setPosition ?s (1 / 2)) = Some w"
    and lw: "length (pw_real w) = 8" "length (pw_imag w) = 8"
    and w3: "pw_real w ! 3 = coef_or_zero [1, 2, 3, 4] 3 * (1 / 2) +
                              coef_or_zero [3, 0, 1, 0, 2, 4, 6, 8] 3 * (1 / 2)"
    and w5: "pw_real w ! 5 = coef_or_zero [1, 2, 3, 4] 5 * (1 / 2) +
                              coef_or_zero [3, 0, 1, 0, 2, 4, 6, 8] 5 * (1 / 2)"
    using blend_ragged_interpolation [OF len, of "1 / 2"] unfolding wts by auto
  from w v have "w = PeriodicWave [2, 1, 2, 2, 1, 2, 3, 4] [0, 1 / 2, 0, 1 / 2, 0, 0, 0, 1]"
    by simp
  with w len show ?thesis
    by simp
qed

text \<open>
  C2. For a wavetable sequence of length at least 2 in which every table's \<open>real\<close> and
  \<open>imag\<close> sequences all have one length \<open>H\<close>, \<open>setPosition(0)\<close> makes the live spectrum
  the first table's \<open>real\<close> and \<open>imag\<close> sequences and \<open>setPosition(1)\<close> the last table's.
\<close>

theorem blend_boundary_positions:
  assumes "2 \<le> length (wavetables self)"
    and "\<forall>wt \<in> set (wavetables self). length (real_coef wt) = H \<and> length (imag_coef wt) = H"
  shows "oscillator (setPosition self 0) =
           Some (createPeriodicWave (real_coef (hd (wavetables self)))
                                    (imag_coef (hd (wavetables self)))) \<and>
         oscillator (setPosition self 1) =
           Some (createPeriodicWave (real_coef (last (wavetables self)))
                                    (imag_coef (last (wavetables self))))"
proof
  let ?wts = "wavetables self"
  let ?L = "int (length ?wts) - 1"
  have ne: "?wts \<noteq> []" and one: "Suc 0 < length ?wts"
    using assms(1) by auto
  have len: "length (real_coef (?wts ! i)) = H" "length (imag_coef (?wts ! i)) = H"
    if "i < length ?wts" for i
    using assms(2) that by simp_all
  have whole: "map (\<lambda>n. coef_or_zero xs n * (1 - 0) + coef_or_zero ys n * 0) [0..<H] = xs"
    if "length xs = H" for xs ys
    using that by (auto simp: coef_or_zero_def intro!: nth_equalityI)
  have mx: "max (max (max H H) H) H = H"
    by simp
  have "0 < length ?wts"
    using ne by simp
  note len0 = len [OF this] and len1 = len [OF one]
  have first: "hd ?wts = ?wts ! 0"
    using ne by (simp add: hd_conv_nth)
  have final: "last ?wts = ?wts ! (length ?wts - Suc 0)"
    using ne by (simp add: last_conv_nth)
  have "oscillator (setPosition self 0) =
          Some (PeriodicWave
            (map (\<lambda>n. coef_or_zero (real_coef (?wts ! 0)) n * (1 - 0) +
                       coef_or_zero (real_coef (?wts ! Suc 0)) n * 0) [0..<H])
            (map (\<lambda>n. coef_or_zero (imag_coef (?wts ! 0)) n * (1 - 0) +
                       coef_or_zero (imag_coef (?wts ! Suc 0)) n * 0) [0..<H]))"
  proof (rule setPosition_blend [OF assms(1), where scaled = 0])
    show "(0::real) = max 0 (min 1 0) * real_of_int ?L"
      by simp
    show "(0::real) = 0 - real_of_int \<lfloor>0::real\<rfloor>"
      by simp
    show "?wts ! 0 = ?wts ! nat \<lfloor>0::real\<rfloor>"
      by simp
    show "?wts ! Suc 0 = ?wts ! nat (min (\<lfloor>0::real\<rfloor> + 1) ?L)"
      using one by simp
    show "H = max (max (max (length (real_coef (?wts ! 0))) (length (imag_coef (?wts ! 0))))
                       (length (real_coef (?wts ! Suc 0))))
                  (length (imag_coef (?wts ! Suc 0)))"
      by (simp only: len0 len1 mx)
  qed
  then show "oscillator (setPosition self 0) =
          Some (createPeriodicWave (real_coef (hd ?wts)) (imag_coef (hd ?wts)))"
    by (simp only: whole len0 createPeriodicWave_def first)
  let ?last = "?wts ! (length ?wts - Suc 0)"
  have idx: "nat ?L = length ?wts - Suc 0"
    by simp
  have in_range: "length ?wts - Suc 0 < length ?wts"
    using ne by simp
  have "oscillator (setPosition self 1) =
          Some (PeriodicWave
            (map (\<lambda>n. coef_or_zero (real_coef ?last) n * (1 - 0) +
                       coef_or_zero (real_coef ?last) n * 0) [0..<H])
            (map (\<lambda>n. coef_or_zero (imag_coef ?last) n * (1 - 0) +
                       coef_or_zero (imag_coef ?last) n * 0) [0..<H]))"
  proof (rule setPosition_blend [OF assms(1), where scaled = "real_of_int ?L"])
    show "real_of_int ?L = max 0 (min 1 1) * real_of_int ?L"
      by simp
    show "(0::real) = real_of_int ?L - real_of_int \<lfloor>real_of_int ?L\<rfloor>"
      by simp
    show "?last = ?wts ! nat \<lfloor>real_of_int ?L\<rfloor>"
      by (simp only: floor_of_int idx)
    show "?last = ?wts ! nat (min (\<lfloor>real_of_int ?L\<rfloor> + 1) ?L)"
      by (simp only: floor_of_int) (simp add: min_def idx del: of_nat_diff)
    show "H = max (max (max (length (real_coef ?last)) (length (imag_coef ?last)))
                       (length (real_coef ?last)))
                  (length (imag_coef ?last))"
      by (simp only: len [OF in_range] mx)
  qed
  then show "oscillator (setPosition self 1) =
          Some (createPeriodicWave (real_coef (last ?wts)) (imag_coef (last ?wts)))"
    by (simp only: whole len [OF in_range] createPeriodicWave_def final)
qed

theorem blend_boundary_positions_witness:
  "2 \<le> length (wavetables (WavetableOscillator
       [\<lparr>real_coef = [0, 0], imag_coef = [0, 1]\<rparr>,
        \<lparr>real_coef = [0, 0], imag_coef = [0, - 1]\<rparr>,
        \<lparr>real_coef = [1, 0], imag_coef = [0, 1 / 2]\<rparr>])) \<and>
   list_all (\<lambda>wt. length (real_coef wt) = 2 \<and> length (imag_coef wt) = 2)
     (wavetables (WavetableOscillator
       [\<lparr>real_coef = [0, 0], imag_coef = [0, 1]\<rparr>,
        \<lparr>real_coef = [0, 0], imag_coef = [0, - 1]\<rparr>,
        \<lparr>real_coef = [1, 0], imag_coef = [0, 1 / 2]\<rparr>])) \<and>
   oscillator (setPosition (WavetableOscillator
       [\<lparr>real_coef = [0, 0], imag_coef = [0, 1]\<rparr>,
        \<lparr>real_coef = [0, 0], imag_coef = [0, - 1]\<rparr>,
        \<lparr>real_coef = [1, 0], imag_coef = [0, 1 / 2]\<rparr>]) 0) =
     Some (PeriodicWave [0, 0] [0, 1]) \<and>
   oscillator (setPosition (WavetableOscillator
       [\<lparr>real_coef = [0, 0], imag_coef = [0, 1]\<rparr>,
        \<lparr>real_coef = [0, 0], imag_coef = [0, - 1]\<rparr>,
        \<lparr>real_coef = [1, 0], imag_coef = [0, 1 / 2]\<rparr>]) 1) =
     Some (PeriodicWave [1, 0] [0, 1 / 2])"
proof -
  let ?s = "WavetableOscillator
       [\<lparr>real_coef = [0, 0], imag_coef = [0, 1]\<rparr>,
        \<lparr>real_coef = [0, 0], imag_coef = [0, - 1]\<rparr>,
        \<lparr>real_coef = [1, 0], imag_coef = [0, 1 / 2]\<rparr>]"
  have len: "2 \<le> length (wavetables ?s)"
    by (simp add: WavetableOscillator_def)
  have uni: "\<forall>wt \<in> set (wavetables ?s). length (real_coef wt) = 2 \<and> length (imag_coef wt) = 2"
    by (simp add: WavetableOscillator_def)
  show ?thesis
    using blend_boundary_positions [OF len uni]
    by (simp add: WavetableOscillator_def createPeriodicWave_def)
qed

text \<open>
  C9. When the argument is absent, or lacks its \<open>real\<close> or its \<open>imag\<close> sequence,
  \<open>addWavetable\<close> returns normally and the oscillator is as it was: nothing is appended
  to the wavetable sequence and no element of it changes.
\<close>

theorem addWavetable_ignores_malformed:
  assumes "wavetable = None \<or>
           (\<exists>wt. wavetable = Some wt \<and> (arg_real wt = None \<or> arg_imag wt = None))"
  shows "addWavetable self wavetable = Inr self"
  using assms by (auto simp: addWavetable_def split: option.splits)

theorem addWavetable_ignores_malformed_witness:
  "addWavetable (WavetableOscillator [\<lparr>real_coef = [0, 0], imag_coef = [0, 1]\<rparr>]) None =
     Inr (WavetableOscillator [\<lparr>real_coef = [0, 0], imag_coef = [0, 1]\<rparr>]) \<and>
   arg_imag \<lparr>arg_real = Some [0, 1], arg_imag = None\<rparr> = None \<and>
   addWavetable (WavetableOscillator [\<lparr>real_coef = [0, 0], imag_coef = [0, 1]\<rparr>])
       (Some \<lparr>arg_real = Some [0, 1], arg_imag = None\<rparr>) =
     Inr (WavetableOscillator [\<lparr>real_coef = [0, 0], imag_coef = [0, 1]\<rparr>]) \<and>
   arg_real \<lparr>arg_real = None, arg_imag = Some [0, 1]\<rparr> = None \<and>
   addWavetable (WavetableOscillator [\<lparr>real_coef = [0, 0], imag_coef = [0, 1]\<rparr>])
       (Some \<lparr>arg_real = None, arg_imag = Some [0, 1]\<rparr>) =
     Inr (WavetableOscillator [\<lparr>real_coef = [0, 0], imag_coef = [0, 1]\<rparr>])"
  using addWavetable_ignores_malformed
      [of None "WavetableOscillator [\<lparr>real_coef = [0, 0], imag_coef = [0, 1]\<rparr>]"]
    addWavetable_ignores_malformed
      [of "Some \<lparr>arg_real = Some [0, 1], arg_imag = None\<rparr>"
          "WavetableOscillator [\<lparr>real_coef = [0, 0], imag_coef = [0, 1]\<rparr>]"]
    addWavetable_ignores_malformed
      [of "Some \<lparr>arg_real = None, arg_imag = Some [0, 1]\<rparr>"
          "WavetableOscillator [\<lparr>real_coef = [0, 0], imag_coef = [0, 1]\<rparr>]"]
  by simp

subsection \<open>Period estimate\<close>

lemma autocorr_loop_eq:
  "autocorr_loop window lag i acc =
     acc + (\<Sum>j = i..<length window - lag. window ! j * window ! (j + lag))"
proof (induction window lag i acc rule: autocorr_loop.induct)
  case (1 window lag i acc)
  show ?case
  proof (cases "i < length window - lag")
    case True
    then have "int i < int (length window) - int lag"
      by linarith
    with True "1" show ?thesis
      by (simp add: autocorr_loop.simps [of window lag i] sum.atLeast_Suc_lessThan)
  next
    case False
    then have "\<not> int i < int (length window) - int lag"
      by linarith
    with False show ?thesis
      by (simp add: autocorr_loop.simps [of window lag i])
  qed
qed

lemma autocorr_loop_sum:
  "autocorr_loop window lag 0 0 = (\<Sum>i<length window - lag. window ! i * window ! (i + lag))"
  by (simp add: autocorr_loop_eq lessThan_atLeast0)

lemma lag_loop_empty: "hi < lag \<Longrightarrow> lag_loop window hi lag s = s"
  by (cases s) (simp add: lag_loop.simps)

lemma lag_loop_best:
  "\<exists>L S. lag_loop window hi lag (best, Fin bestScore) = (L, Fin S) \<and>
     bestScore \<le> S \<and>
     (\<forall>l. lag \<le> l \<and> l \<le> hi \<longrightarrow> autocorr_loop window (nat l) 0 0 \<le> S) \<and>
     (L = best \<and> S = bestScore \<or>
      lag \<le> L \<and> L \<le> hi \<and> S = autocorr_loop window (nat L) 0 0 \<and> bestScore < S \<and>
      (\<forall>l. lag \<le> l \<and> l < L \<longrightarrow> autocorr_loop window (nat l) 0 0 < S))"
proof (induction window hi lag "(best, Fin bestScore)" arbitrary: best bestScore
    rule: lag_loop.induct)
  case (1 window hi lag best bestScore)
  let ?sc = "\<lambda>l. autocorr_loop window (nat l) 0 0"
  show ?case
  proof (cases "lag \<le> hi")
    case False
    then show ?thesis
      by (simp add: lag_loop.simps [of window hi lag])
  next
    case in_range: True
    show ?thesis
    proof (cases "bestScore < ?sc lag")
      case True
      then have step: "lag_loop window hi lag (best, Fin bestScore) =
          lag_loop window hi (lag + 1) (lag, Fin (?sc lag))"
        using in_range by (simp add: lag_loop.simps [of window hi lag])
      have "jgt (Fin (?sc lag)) (Fin bestScore)"
        using True by simp
      from "1.hyps"(1) [OF in_range refl this]
      obtain L S where r: "lag_loop window hi (lag + 1) (lag, Fin (?sc lag)) = (L, Fin S)"
        and le: "?sc lag \<le> S"
        and all: "\<forall>l. lag + 1 \<le> l \<and> l \<le> hi \<longrightarrow> ?sc l \<le> S"
        and which: "L = lag \<and> S = ?sc lag \<or>
          lag + 1 \<le> L \<and> L \<le> hi \<and> S = ?sc L \<and> ?sc lag < S \<and>
          (\<forall>l. lag + 1 \<le> l \<and> l < L \<longrightarrow> ?sc l < S)"
        by auto
      have a: "\<forall>l. lag \<le> l \<and> l \<le> hi \<longrightarrow> ?sc l \<le> S"
      proof (intro allI impI)
        fix l
        assume "lag \<le> l \<and> l \<le> hi"
        then consider "l = lag" | "lag + 1 \<le> l \<and> l \<le> hi"
          by linarith
        then show "?sc l \<le> S"
          using le all by cases auto
      qed
      have b: "lag \<le> L \<and> L \<le> hi \<and> S = ?sc L \<and> bestScore < S \<and>
          (\<forall>l. lag \<le> l \<and> l < L \<longrightarrow> ?sc l < S)"
        using which
      proof
        assume "L = lag \<and> S = ?sc lag"
        then show ?thesis
          using in_range True by auto
      next
        assume w: "lag + 1 \<le> L \<and> L \<le> hi \<and> S = ?sc L \<and> ?sc lag < S \<and>
          (\<forall>l. lag + 1 \<le> l \<and> l < L \<longrightarrow> ?sc l < S)"
        have "?sc l < S" if "lag \<le> l \<and> l < L" for l
        proof (cases "l = lag")
          case True
          then show ?thesis using w by simp
        next
          case False
          with that have "lag + 1 \<le> l \<and> l < L" by linarith
          with w show ?thesis by blast
        qed
        with w True show ?thesis
          by auto
      qed
      from True le have "bestScore \<le> S"
        by linarith
      with r a b show ?thesis
        unfolding step by blast
    next
      case False
      then have step: "lag_loop window hi lag (best, Fin bestScore) =
          lag_loop window hi (lag + 1) (best, Fin bestScore)"
        using in_range by (simp add: lag_loop.simps [of window hi lag])
      have "\<not> jgt (Fin (?sc lag)) (Fin bestScore)"
        using False by simp
      from "1.hyps"(2) [OF in_range refl this]
      obtain L S where r: "lag_loop window hi (lag + 1) (best, Fin bestScore) = (L, Fin S)"
        and le: "bestScore \<le> S"
        and all: "\<forall>l. lag + 1 \<le> l \<and> l \<le> hi \<longrightarrow> ?sc l \<le> S"
        and which: "L = best \<and> S = bestScore \<or>
          lag + 1 \<le> L \<and> L \<le> hi \<and> S = ?sc L \<and> bestScore < S \<and>
          (\<forall>l. lag + 1 \<le> l \<and> l < L \<longrightarrow> ?sc l < S)"
        by auto
      have a: "\<forall>l. lag \<le> l \<and> l \<le> hi \<longrightarrow> ?sc l \<le> S"
      proof (intro allI impI)
        fix l
        assume "lag \<le> l \<and> l \<le> hi"
        then consider "l = lag" | "lag + 1 \<le> l \<and> l \<le> hi"
          by linarith
        then show "?sc l \<le> S"
          using le all False by cases auto
      qed
      have b: "L = best \<and> S = bestScore \<or>
          lag \<le> L \<and> L \<le> hi \<and> S = ?sc L \<and> bestScore < S \<and>
          (\<forall>l. lag \<le> l \<and> l < L \<longrightarrow> ?sc l < S)"
        using which
      proof
        assume "L = best \<and> S = bestScore"
        then show ?thesis by simp
      next
        assume w: "lag + 1 \<le> L \<and> L \<le> hi \<and> S = ?sc L \<and> bestScore < S \<and>
          (\<forall>l. lag + 1 \<le> l \<and> l < L \<longrightarrow> ?sc l < S)"
        have "?sc l < S" if "lag \<le> l \<and> l < L" for l
        proof (cases "l = lag")
          case True
          then show ?thesis using w False by simp
        next
          case False
          with that have "lag + 1 \<le> l \<and> l < L" by linarith
          with w show ?thesis by blast
        qed
        with w show ?thesis
          by auto
      qed
      from r le a b show ?thesis
        unfolding step by blast
    qed
  qed
qed

lemma minLag_ge_2: "minLag sampleRate maxFrequency = Fin m \<Longrightarrow> 2 \<le> m"
  unfolding minLag_def
  by (cases "jfloor (jdiv (Fin sampleRate) (Fin maxFrequency))") auto

lemma lag_loop_first_best:
  assumes "a \<le> b"
  shows "\<exists>L. fst (lag_loop window b a (a, NInf)) = L \<and> a \<le> L \<and> L \<le> b \<and>
     (\<forall>l. a \<le> l \<and> l \<le> b \<longrightarrow>
        autocorr_loop window (nat l) 0 0 \<le> autocorr_loop window (nat L) 0 0) \<and>
     (\<forall>l. a \<le> l \<and> l < L \<longrightarrow>
        autocorr_loop window (nat l) 0 0 < autocorr_loop window (nat L) 0 0)"
proof -
  let ?sc = "\<lambda>l. autocorr_loop window (nat l) 0 0"
  have first: "lag_loop window b a (a, NInf) = lag_loop window b (a + 1) (a, Fin (?sc a))"
    using assms by (simp add: lag_loop.simps [of window b a])
  obtain L S where r: "lag_loop window b (a + 1) (a, Fin (?sc a)) = (L, Fin S)"
    and le: "?sc a \<le> S"
    and all: "\<forall>l. a + 1 \<le> l \<and> l \<le> b \<longrightarrow> ?sc l \<le> S"
    and which: "L = a \<and> S = ?sc a \<or>
      a + 1 \<le> L \<and> L \<le> b \<and> S = ?sc L \<and> ?sc a < S \<and>
      (\<forall>l. a + 1 \<le> l \<and> l < L \<longrightarrow> ?sc l < S)"
    using lag_loop_best [of window b "a + 1" a "?sc a"] by auto
  from which have S: "S = ?sc L" and bounds: "a \<le> L" "L \<le> b"
    using assms by auto
  have upper: "?sc l \<le> ?sc L" if "a \<le> l \<and> l \<le> b" for l
  proof (cases "l = a")
    case True
    then show ?thesis using le S by simp
  next
    case False
    with that have "a + 1 \<le> l \<and> l \<le> b" by linarith
    with all S show ?thesis by blast
  qed
  have strict: "?sc l < ?sc L" if "a \<le> l \<and> l < L" for l
    using which
  proof
    assume "L = a \<and> S = ?sc a"
    with that show ?thesis by auto
  next
    assume w: "a + 1 \<le> L \<and> L \<le> b \<and> S = ?sc L \<and> ?sc a < S \<and>
      (\<forall>l. a + 1 \<le> l \<and> l < L \<longrightarrow> ?sc l < S)"
    show ?thesis
    proof (cases "l = a")
      case True
      then show ?thesis using w by simp
    next
      case False
      with that have "a + 1 \<le> l \<and> l < L" by linarith
      with w show ?thesis by blast
    qed
  qed
  from bounds upper strict show ?thesis
    unfolding first r by auto
qed

text \<open>
  C7. When the lag range is valid, \<open>minLag = a \<le> b = maxLag\<close>, the period estimate is
  a lag \<open>L\<close> of the range whose unnormalised autocorrelation
  \<open>\<Sum> window[i] * window[i + L]\<close>, over \<open>0 \<le> i < len(window) - L\<close>, is maximal in
  the range, and every smaller lag of the range scores strictly less: among the lags
  of maximal score it is the smallest.
\<close>

theorem period_is_first_best_lag:
  assumes "minLag sampleRate maxFrequency = Fin (of_int a)"
    and "maxLag window sampleRate minFrequency = Fin (of_int b)"
    and "a \<le> b"
  shows "\<exists>L. period window sampleRate minFrequency maxFrequency = Fin (of_int L) \<and>
     a \<le> L \<and> L \<le> b \<and>
     (\<forall>l. a \<le> l \<and> l \<le> b \<longrightarrow>
        (\<Sum>i<length window - nat l. window ! i * window ! (i + nat l))
          \<le> (\<Sum>i<length window - nat L. window ! i * window ! (i + nat L))) \<and>
     (\<forall>l. a \<le> l \<and> l < L \<longrightarrow>
        (\<Sum>i<length window - nat l. window ! i * window ! (i + nat l))
          < (\<Sum>i<length window - nat L. window ! i * window ! (i + nat L)))"
proof -
  obtain L where L: "fst (lag_loop window b a (a, NInf)) = L"
    and bounds: "a \<le> L" "L \<le> b"
    and best: "\<forall>l. a \<le> l \<and> l \<le> b \<longrightarrow>
        autocorr_loop window (nat l) 0 0 \<le> autocorr_loop window (nat L) 0 0"
    and least: "\<forall>l. a \<le> l \<and> l < L \<longrightarrow>
        autocorr_loop window (nat l) 0 0 < autocorr_loop window (nat L) 0 0"
    using lag_loop_first_best [OF assms(3), of window] by blast
  have "(2::real) \<le> of_int a"
    using assms(1) by (rule minLag_ge_2)
  then have "(2::real) \<le> of_int L"
    using bounds(1) by linarith
  then have "period window sampleRate minFrequency maxFrequency = Fin (of_int L)"
    by (simp add: period_def bestLag_def assms(1,2) L)
  with bounds best least show ?thesis
    unfolding autocorr_loop_sum by blast
qed

theorem period_is_first_best_lag_witness:
  "minLag 8 4 = Fin (of_int 2) \<and> maxLag [1, 0, - 1, 0, 1, 0] 8 2 = Fin (of_int 4) \<and>
   (2::int) \<le> 4 \<and> period [1, 0, - 1, 0, 1, 0] 8 2 4 = Fin 4 \<and>
   minLag 8 4 = Fin (of_int 2) \<and> maxLag [0, 0, 0, 0, 0, 0] 8 2 = Fin (of_int 4) \<and>
   period [0, 0, 0, 0, 0, 0] 8 2 4 = Fin 2"
proof -
  have mn: "minLag 8 4 = Fin (of_int 2)"
    by (simp add: minLag_def)
  have mx: "maxLag [1, 0, - 1, 0, 1, 0] 8 2 = Fin (of_int 4)"
    "maxLag [0, 0, 0, 0, 0, 0] 8 2 = Fin (of_int 4)"
    by (simp_all add: maxLag_def)
  have p: "period [1, 0, - 1, 0, 1, 0] 8 2 4 = Fin 4" "period [0, 0, 0, 0, 0, 0] 8 2 4 = Fin 2"
    by code_simp+
  from mn mx p show ?thesis
    using period_is_first_best_lag [OF mn mx(1)] period_is_first_best_lag [OF mn mx(2)]
    by simp
qed

text \<open>
  C5, as the code has it. Nothing checks the lag range. When \<open>minLag > maxLag\<close> the
  search loop is not entered, \<open>bestLag\<close> keeps its initial value, and the period is
  \<open>minLag\<close>.
\<close>

theorem period_of_empty_lag_range:
  assumes "jgt (minLag sampleRate maxFrequency) (maxLag window sampleRate minFrequency)"
  shows "period window sampleRate minFrequency maxFrequency = minLag sampleRate maxFrequency"
proof (cases "\<exists>a b. minLag sampleRate maxFrequency = Fin a \<and>
                      maxLag window sampleRate minFrequency = Fin b")
  case True
  then obtain a b where mn: "minLag sampleRate maxFrequency = Fin a"
    and mx: "maxLag window sampleRate minFrequency = Fin b"
    by blast
  from mn have a2: "2 \<le> a"
    by (rule minLag_ge_2)
  from assms mn mx have "b < a"
    by simp
  have "a = of_int \<lfloor>a\<rfloor>"
    using mn unfolding minLag_def
    by (cases "jdiv (Fin sampleRate) (Fin maxFrequency)") (auto simp: max_def split: if_splits)
  moreover from this \<open>b < a\<close> have "\<lfloor>b\<rfloor> < \<lfloor>a\<rfloor>"
    by (metis floor_less_iff)
  ultimately show ?thesis
    using a2 by (simp add: period_def bestLag_def mn mx lag_loop_empty)
next
  case False
  with assms show ?thesis
    by (cases "minLag sampleRate maxFrequency"; cases "maxLag window sampleRate minFrequency")
      (auto simp: period_def bestLag_def max_def dest: minLag_ge_2)
qed

theorem period_of_empty_lag_range_witness:
  "jgt (minLag 4 2) (maxLag [1, - 1, 1] 4 1) \<and> minLag 4 2 = Fin 2 \<and>
   period [1, - 1, 1] 4 1 2 = Fin 2"
proof -
  have gt: "jgt (minLag 4 2) (maxLag [1, - 1, 1] 4 1)"
    by (simp add: minLag_def maxLag_def)
  have mn: "minLag 4 2 = Fin 2"
    by (simp add: minLag_def)
  from period_of_empty_lag_range [OF gt] gt mn show ?thesis
    by simp
qed

text \<open>
  The claim that an empty lag range is an error is refuted on a window of three samples
  at \<open>sampleRate = 4\<close>, \<open>minFrequency = 1\<close>, \<open>maxFrequency = 2\<close>: \<open>minLag = 2 > 1 = maxLag\<close>,
  and the extraction returns a cycle of period 2.
\<close>

theorem empty_lag_range_counterexample:
  "minLag 4 2 = Fin 2 \<and> maxLag [1, - 1, 1] 4 1 = Fin 1 \<and>
   period [1, - 1, 1] 4 1 2 = Fin 2 \<and>
   extractSingleCycle [1, - 1, 1] 4 1 2 = Inr [Fin 1, Fin (- 1)]"
  by code_simp

subsection \<open>Cycle extraction\<close>

lemma crossing_loop_cases:
  "crossing_loop window searchLimit i = 0 \<and>
     (\<forall>j. i \<le> j \<and> int j < searchLimit \<longrightarrow> \<not> rising window j) \<or>
   (\<exists>j. crossing_loop window searchLimit i = j + 1 \<and> i \<le> j \<and> int j < searchLimit \<and>
        rising window j \<and> (\<forall>k. i \<le> k \<and> k < j \<longrightarrow> \<not> rising window k))"
proof (induction window searchLimit i rule: crossing_loop.induct)
  case (1 window searchLimit i)
  show ?case
  proof (cases "int i < searchLimit")
    case False
    then show ?thesis
      by (auto simp: crossing_loop.simps [of window searchLimit i])
  next
    case in_range: True
    show ?thesis
    proof (cases "rising window i")
      case True
      with in_range have "crossing_loop window searchLimit i = i + 1"
        by (simp add: crossing_loop.simps [of window searchLimit i])
      with in_range True show ?thesis
        by auto
    next
      case False
      with in_range have step:
        "crossing_loop window searchLimit i = crossing_loop window searchLimit (i + 1)"
        by (simp add: crossing_loop.simps [of window searchLimit i])
      have skip: "\<not> rising window k" if "i \<le> k" and "\<not> i + 1 \<le> k" for k
      proof -
        from that have "k = i"
          by linarith
        with False show ?thesis
          by simp
      qed
      from "1.IH" [OF in_range False] show ?thesis
      proof
        assume a: "crossing_loop window searchLimit (i + 1) = 0 \<and>
          (\<forall>j. i + 1 \<le> j \<and> int j < searchLimit \<longrightarrow> \<not> rising window j)"
        have "\<not> rising window j" if "i \<le> j \<and> int j < searchLimit" for j
        proof (cases "i + 1 \<le> j")
          case True
          with a that show ?thesis by blast
        next
          case False
          with that show ?thesis by (intro skip) simp_all
        qed
        with a show ?thesis
          unfolding step by blast
      next
        assume "\<exists>j. crossing_loop window searchLimit (i + 1) = j + 1 \<and> i + 1 \<le> j \<and>
          int j < searchLimit \<and> rising window j \<and>
          (\<forall>k. i + 1 \<le> k \<and> k < j \<longrightarrow> \<not> rising window k)"
        then obtain j where j: "crossing_loop window searchLimit (i + 1) = j + 1" "i + 1 \<le> j"
          "int j < searchLimit" "rising window j"
          and before: "\<forall>k. i + 1 \<le> k \<and> k < j \<longrightarrow> \<not> rising window k"
          by blast
        have "\<not> rising window k" if "i \<le> k \<and> k < j" for k
        proof (cases "i + 1 \<le> k")
          case True
          with before that show ?thesis by blast
        next
          case False
          with that show ?thesis by (intro skip) simp_all
        qed
        moreover from j(2) have "i \<le> j"
          by simp
        ultimately show ?thesis
          unfolding step using j by (intro disjI2 exI [of _ j]) blast
      qed
    qed
  qed
qed

lemma cycle_loop_eq:
  assumes "length cycle = n"
  shows "cycle_loop window startIndex n i cycle =
     map (\<lambda>j. if i \<le> j
               then (if startIndex + j < length window then Fin (window ! (startIndex + j)) else NaN)
               else cycle ! j) [0..<n]"
  using assms
proof (induction window startIndex n i cycle rule: cycle_loop.induct)
  case (1 window startIndex n i cycle)
  let ?v = "\<lambda>j. if startIndex + j < length window then Fin (window ! (startIndex + j)) else NaN"
  show ?case
  proof (cases "i < n")
    case False
    with "1.prems" show ?thesis
      by (auto simp: cycle_loop.simps [of _ _ n i] intro!: nth_equalityI)
  next
    case True
    have "cycle_loop window startIndex n i cycle =
            cycle_loop window startIndex n (i + 1) (cycle[i := ?v i])"
      using True by (simp add: cycle_loop.simps [of _ _ n i])
    also have "\<dots> = map (\<lambda>j. if i + 1 \<le> j then ?v j else cycle[i := ?v i] ! j) [0..<n]"
      using "1.IH" [OF True] "1.prems" by simp
    also have "\<dots> = map (\<lambda>j. if i \<le> j then ?v j else cycle ! j) [0..<n]"
    proof -
      have "(if i + 1 \<le> j then ?v j else cycle[i := ?v i] ! j) =
            (if i \<le> j then ?v j else cycle ! j)" if "j < n" for j
        using that "1.prems" by (cases "j = i") simp_all
      then show ?thesis
        by simp
    qed
    finally show ?thesis .
  qed
qed

lemma cycle_loop_length:
  "length (cycle_loop window startIndex n 0 (replicate n (Fin 0))) = n"
  by (simp add: cycle_loop_eq)

lemma cycle_loop_in_range:
  assumes "startIndex + n \<le> length window"
  shows "cycle_loop window startIndex n 0 (replicate n (Fin 0)) =
           map Fin (take n (drop startIndex window))"
  using assms by (auto simp: cycle_loop_eq intro!: nth_equalityI)

lemma scale_loop_eq:
  "scale_loop cycle scale i =
     map (\<lambda>j. if i \<le> j then jmul (cycle ! j) scale else cycle ! j) [0..<length cycle]"
proof (induction cycle scale i rule: scale_loop.induct)
  case (1 cycle scale i)
  show ?case
  proof (cases "i < length cycle")
    case False
    then show ?thesis
      by (auto simp: scale_loop.simps [of cycle scale i] intro!: nth_equalityI)
  next
    case True
    let ?c = "cycle[i := jmul (cycle ! i) scale]"
    have "scale_loop cycle scale i = scale_loop ?c scale (i + 1)"
      using True by (simp add: scale_loop.simps [of cycle scale i])
    also have "\<dots> = map (\<lambda>j. if i + 1 \<le> j then jmul (?c ! j) scale else ?c ! j) [0..<length ?c]"
      using "1.IH" [OF True] .
    also have "\<dots> = map (\<lambda>j. if i \<le> j then jmul (cycle ! j) scale else cycle ! j) [0..<length cycle]"
    proof -
      have "(if i + 1 \<le> j then jmul (?c ! j) scale else ?c ! j) =
            (if i \<le> j then jmul (cycle ! j) scale else cycle ! j)" if "j < length cycle" for j
        using that by (cases "j = i") simp_all
      then show ?thesis
        by simp
    qed
    finally show ?thesis .
  qed
qed

lemma scale_loop_all: "scale_loop cycle scale 0 = map (\<lambda>x. jmul x scale) cycle"
  by (auto simp: scale_loop_eq intro!: nth_equalityI)

lemma peak_loop_finite:
  assumes "0 \<le> peak"
  shows "peak_loop (map Fin raw) i (Fin peak) = Fin (Max (insert peak (abs ` set (drop i raw))))"
  using assms
proof (induction "length raw - i" arbitrary: i peak)
  case 0
  then show ?case
    by (simp add: peak_loop.simps [of _ i])
next
  case (Suc d)
  then have i: "i < length raw" and d: "d = length raw - (i + 1)"
    by simp_all
  let ?a = "\<bar>raw ! i\<bar>"
  have "peak_loop (map Fin raw) i (Fin peak) = peak_loop (map Fin raw) (i + 1) (Fin (max peak ?a))"
    using i by (simp add: peak_loop.simps [of _ i] max_def)
  also have "\<dots> = Fin (Max (insert (max peak ?a) (abs ` set (drop (i + 1) raw))))"
    using Suc.hyps(1) [OF d, of "max peak ?a"] Suc.prems by simp
  also have "Max (insert (max peak ?a) (abs ` set (drop (i + 1) raw))) =
      Max (insert peak (abs ` set (drop i raw)))"
  proof -
    have dr: "drop i raw = raw ! i # drop (i + 1) raw"
      using i by (simp add: Cons_nth_drop_Suc)
    have "Max (insert peak (abs ` set (drop i raw))) =
          Max (insert peak (insert ?a (abs ` set (drop (i + 1) raw))))"
      by (simp add: dr)
    also have "\<dots> = Max (insert (max peak ?a) (abs ` set (drop (i + 1) raw)))"
      by (cases "abs ` set (drop (i + 1) raw) = {}") (simp_all add: max.assoc)
    finally show ?thesis
      by simp
  qed
  finally show ?case .
qed

lemma period_ge_2: "period window sampleRate minFrequency maxFrequency = Fin m \<Longrightarrow> 2 \<le> m"
  unfolding period_def
  by (cases "bestLag window (minLag sampleRate maxFrequency) (maxLag window sampleRate minFrequency)")
    auto

lemma extract_finite_period:
  assumes "samples \<noteq> []"
    and "window = take (min (length samples) 16384) samples"
    and "period window sampleRate minFrequency maxFrequency = Fin (of_int p)"
    and "found = crossing_loop window (int (length window) - p - 2) 0"
    and "startIndex = (if int (length window) < int found + p then 0 else found)"
    and "cycle1 = cycle_loop window startIndex (nat p) 0 (replicate (nat p) (Fin 0))"
    and "peak = peak_loop cycle1 0 (Fin 0)"
  shows "extractSingleCycle samples sampleRate minFrequency maxFrequency =
     (if jgt peak (Fin 0) then Inr (scale_loop cycle1 (jdiv (Fin 1) peak) 0) else Inr cycle1)"
proof -
  have "period (take (min (length samples) 16384) samples) sampleRate minFrequency maxFrequency =
      Fin (of_int p)"
    using assms(2,3) by simp
  then show ?thesis
    unfolding assms(2,4,5,6,7)
    by (simp only: extractSingleCycle_def Let_def assms(1) if_False jsnum.case floor_of_int)
qed

lemma normalised_peak:
  fixes raw :: "real list"
  assumes "\<exists>x \<in> set raw. x \<noteq> 0"
  shows "Max ((\<lambda>x. \<bar>x * (1 / Max (abs ` set raw))\<bar>) ` set raw) = 1"
proof -
  let ?A = "abs ` set raw"
  let ?pk = "Max ?A"
  have fin: "finite ?A" and ne: "?A \<noteq> {}"
    using assms by auto
  obtain x where x: "x \<in> set raw" "x \<noteq> 0"
    using assms by blast
  then have "\<bar>x\<bar> \<le> ?pk"
    using fin by (intro Max_ge) auto
  with x have pos: "0 < ?pk"
    by linarith
  have "?pk \<in> ?A"
    using fin ne by (rule Max_in)
  then obtain y where y: "y \<in> set raw" "\<bar>y\<bar> = ?pk"
    by auto
  show ?thesis
  proof (rule Max_eqI)
    show "finite ((\<lambda>x. \<bar>x * (1 / ?pk)\<bar>) ` set raw)"
      by simp
    show "1 \<in> (\<lambda>x. \<bar>x * (1 / ?pk)\<bar>) ` set raw"
    proof (rule image_eqI [of _ _ y])
      show "1 = \<bar>y * (1 / ?pk)\<bar>"
        using y(2) pos by (simp add: abs_mult)
      show "y \<in> set raw"
        by (rule y(1))
    qed
    fix v
    assume "v \<in> (\<lambda>x. \<bar>x * (1 / ?pk)\<bar>) ` set raw"
    then obtain z where z: "z \<in> set raw" "v = \<bar>z * (1 / ?pk)\<bar>"
      by auto
    then have "\<bar>z\<bar> \<le> ?pk"
      using fin by (intro Max_ge) auto
    then show "v \<le> 1"
      using pos z(2) by (simp add: abs_mult)
  qed
qed

text \<open>
  C6, as the code has it. Empty input gives the one-element sequence \<open>[0]\<close>. For a
  non-empty input let \<open>window\<close> be its first 16384 samples and \<open>p\<close> the estimated
  period, and let the window hold at least \<open>p\<close> samples. The result has exactly \<open>p\<close>
  samples, copied from \<open>window\<close> at offset \<open>s\<close>, where \<open>s = i + 1\<close> for the first rising
  zero-crossing \<open>i\<close> with \<open>i < len(window) - p - 2\<close>, and \<open>s = 0\<close> when no \<open>i\<close> below that
  limit is a rising zero-crossing. If every copied sample is 0 the copy is returned as
  it is; otherwise every sample is multiplied by \<open>1 / peak\<close>, \<open>peak\<close> the largest absolute
  value of the copy, and the largest absolute value of the result is 1.
\<close>

theorem extract_cycle:
  fixes samples :: "real list" and sampleRate minFrequency maxFrequency :: real and p :: int
  defines "window \<equiv> take (min (length samples) 16384) samples"
  shows
    "(samples = [] \<longrightarrow>
        extractSingleCycle samples sampleRate minFrequency maxFrequency = Inr [Fin 0]) \<and>
     (samples \<noteq> [] \<and> period window sampleRate minFrequency maxFrequency = Fin (of_int p) \<and>
      p \<le> int (length window) \<longrightarrow>
        (\<exists>s raw.
           (s = 0 \<and> (\<forall>i. int i < int (length window) - p - 2 \<longrightarrow> \<not> rising window i) \<or>
            (\<exists>i. s = i + 1 \<and> int i < int (length window) - p - 2 \<and> rising window i \<and>
                 (\<forall>k<i. \<not> rising window k))) \<and>
           raw = take (nat p) (drop s window) \<and> int (length raw) = p \<and>
           (if \<forall>x \<in> set raw. x = 0
            then extractSingleCycle samples sampleRate minFrequency maxFrequency = Inr (map Fin raw)
            else extractSingleCycle samples sampleRate minFrequency maxFrequency =
                   Inr (map (\<lambda>x. Fin (x * (1 / Max (abs ` set raw)))) raw) \<and>
                 Max ((\<lambda>x. \<bar>x * (1 / Max (abs ` set raw))\<bar>) ` set raw) = 1)))"
proof (intro conjI impI)
  assume "samples = []"
  then show "extractSingleCycle samples sampleRate minFrequency maxFrequency = Inr [Fin 0]"
    by (simp add: extractSingleCycle_def)
next
  assume a: "samples \<noteq> [] \<and> period window sampleRate minFrequency maxFrequency = Fin (of_int p) \<and>
    p \<le> int (length window)"
  let ?E = "extractSingleCycle samples sampleRate minFrequency maxFrequency"
  let ?lim = "int (length window) - p - 2"
  define found where "found = crossing_loop window ?lim 0"
  define raw where "raw = take (nat p) (drop found window)"
  from a have nonempty: "samples \<noteq> []"
    and per: "period window sampleRate minFrequency maxFrequency = Fin (of_int p)"
    and holds: "p \<le> int (length window)"
    by simp_all
  from per have "(2::real) \<le> of_int p"
    by (rule period_ge_2)
  then have p2: "2 \<le> p"
    by linarith
  have start: "found = 0 \<and> (\<forall>i. int i < ?lim \<longrightarrow> \<not> rising window i) \<or>
      (\<exists>i. found = i + 1 \<and> int i < ?lim \<and> rising window i \<and> (\<forall>k<i. \<not> rising window k))"
    using crossing_loop_cases [of window ?lim 0] unfolding found_def by auto
  then have fits: "int found + p \<le> int (length window)"
    using holds by auto
  then have guard: "(if int (length window) < int found + p then 0 else found) = found"
    by simp
  from fits p2 have in_range: "found + nat p \<le> length window"
    by linarith
  then have len: "int (length raw) = p"
    using p2 by (simp add: raw_def)
  then have ne: "raw \<noteq> []"
    using p2 by auto
  have cycle1: "cycle_loop window found (nat p) 0 (replicate (nat p) (Fin 0)) = map Fin raw"
    unfolding raw_def using in_range by (rule cycle_loop_in_range)
  have "Max (insert 0 (abs ` set raw)) = max 0 (Max (abs ` set raw))"
    using ne by (intro Max_insert) auto
  also have "\<dots> = Max (abs ` set raw)"
  proof -
    obtain x where "x \<in> set raw"
      using ne by (cases raw) auto
    then have "\<bar>x\<bar> \<le> Max (abs ` set raw)"
      by (intro Max_ge) auto
    then show ?thesis
      by linarith
  qed
  finally have peak: "peak_loop (map Fin raw) 0 (Fin 0) = Fin (Max (abs ` set raw))"
    by (simp add: peak_loop_finite)
  have E: "?E =
      (if 0 < Max (abs ` set raw)
       then Inr (map (\<lambda>x. Fin (x * (1 / Max (abs ` set raw)))) raw)
       else Inr (map Fin raw))"
  proof -
    have "?E =
      (if jgt (Fin (Max (abs ` set raw))) (Fin 0)
       then Inr (scale_loop (map Fin raw) (jdiv (Fin 1) (Fin (Max (abs ` set raw)))) 0)
       else Inr (map Fin raw))"
    proof (rule extract_finite_period [where window = window and p = p and found = found
          and startIndex = found and ?cycle1.0 = "map Fin raw"])
      show "samples \<noteq> []"
        by (rule nonempty)
      show "window = take (min (length samples) 16384) samples"
        by (simp only: window_def)
      show "period window sampleRate minFrequency maxFrequency = Fin (of_int p)"
        by (rule per)
      show "found = crossing_loop window (int (length window) - p - 2) 0"
        by (rule found_def)
      show "found = (if int (length window) < int found + p then 0 else found)"
        by (simp only: guard)
      show "map Fin raw = cycle_loop window found (nat p) 0 (replicate (nat p) (Fin 0))"
        by (simp only: cycle1)
      show "Fin (Max (abs ` set raw)) = peak_loop (map Fin raw) 0 (Fin 0)"
        by (simp only: peak)
    qed
    then show ?thesis
      by (simp add: scale_loop_all comp_def)
  qed
  have zero_iff: "(\<forall>x \<in> set raw. x = 0) \<longleftrightarrow> \<not> 0 < Max (abs ` set raw)"
  proof -
    have "0 < Max (abs ` set raw) \<longleftrightarrow> (\<exists>a \<in> abs ` set raw. 0 < a)"
      using ne by (intro Max_gr_iff) auto
    then show ?thesis
      by auto
  qed
  have norm: "Max ((\<lambda>x. \<bar>x * (1 / Max (abs ` set raw))\<bar>) ` set raw) = 1"
    if "\<not> (\<forall>x \<in> set raw. x = 0)"
    using that by (intro normalised_peak) blast
  have result: "if \<forall>x \<in> set raw. x = 0
     then ?E = Inr (map Fin raw)
     else ?E = Inr (map (\<lambda>x. Fin (x * (1 / Max (abs ` set raw)))) raw) \<and>
          Max ((\<lambda>x. \<bar>x * (1 / Max (abs ` set raw))\<bar>) ` set raw) = 1"
  proof (cases "\<forall>x \<in> set raw. x = 0")
    case True
    with zero_iff have "\<not> 0 < Max (abs ` set raw)"
      by blast
    with E have "?E = Inr (map Fin raw)"
      by (simp only: if_False)
    then show ?thesis
      unfolding if_P [OF True] .
  next
    case False
    with zero_iff have "0 < Max (abs ` set raw)"
      by blast
    with E have "?E = Inr (map (\<lambda>x. Fin (x * (1 / Max (abs ` set raw)))) raw)"
      by (simp only: if_True)
    then show ?thesis
      unfolding if_not_P [OF False] using norm [OF False] by (rule conjI)
  qed
  show "\<exists>s raw.
      (s = 0 \<and> (\<forall>i. int i < ?lim \<longrightarrow> \<not> rising window i) \<or>
       (\<exists>i. s = i + 1 \<and> int i < ?lim \<and> rising window i \<and> (\<forall>k<i. \<not> rising window k))) \<and>
      raw = take (nat p) (drop s window) \<and> int (length raw) = p \<and>
      (if \<forall>x \<in> set raw. x = 0
       then ?E = Inr (map Fin raw)
       else ?E = Inr (map (\<lambda>x. Fin (x * (1 / Max (abs ` set raw)))) raw) \<and>
            Max ((\<lambda>x. \<bar>x * (1 / Max (abs ` set raw))\<bar>) ` set raw) = 1)"
    using start len result raw_def by (intro exI [of _ found] exI [of _ raw] conjI)
qed

theorem extract_cycle_witness:
  "[0, 1, 2, 0, - 1, - 2, 0, 1, 2, 0, - 1, - 2, 0] \<noteq> ([] :: real list) \<and>
   period (take (min (length [0, 1, 2, 0, - 1, - 2, 0, 1, 2, 0, - 1, - 2, 0 :: real]) 16384)
             [0, 1, 2, 0, - 1, - 2, 0, 1, 2, 0, - 1, - 2, 0]) 12 2 6 = Fin (of_int 6) \<and>
   (6::int) \<le> int (length (take (min (length [0, 1, 2, 0, - 1, - 2, 0, 1, 2, 0, - 1, - 2, 0 :: real]) 16384)
             [0, 1, 2, 0, - 1, - 2, 0, 1, 2, 0, - 1, - 2, 0 :: real])) \<and>
   extractSingleCycle [0, 1, 2, 0, - 1, - 2, 0, 1, 2, 0, - 1, - 2, 0] 12 2 6 =
     Inr [Fin (1 / 2), Fin 1, Fin 0, Fin (- 1 / 2), Fin (- 1), Fin 0] \<and>
   extractSingleCycle [] 12 2 6 = Inr [Fin 0]"
proof -
  let ?S = "[0, 1, 2, 0, - 1, - 2, 0, 1, 2, 0, - 1, - 2, 0 :: real]"
  have ne: "?S \<noteq> []"
    by simp
  have per: "period (take (min (length ?S) 16384) ?S) 12 2 6 = Fin (of_int 6)"
    by code_simp
  have holds: "(6::int) \<le> int (length (take (min (length ?S) 16384) ?S))"
    by simp
  have val: "extractSingleCycle ?S 12 2 6 =
      Inr [Fin (1 / 2), Fin 1, Fin 0, Fin (- 1 / 2), Fin (- 1), Fin 0]"
    by code_simp
  from extract_cycle [of "[]" 12 2 6 6] have empty: "extractSingleCycle [] 12 2 6 = Inr [Fin 0]"
    by simp
  from extract_cycle [of ?S 12 2 6 6] ne per holds
  obtain s raw where "raw = take (nat 6) (drop s (take (min (length ?S) 16384) ?S))"
    and "int (length raw) = 6"
    by blast
  with ne per holds val empty show ?thesis
    by blast
qed

text \<open>
  The claim as stated is refuted on the window \<open>[1, -1, 1, 1/2]\<close> at \<open>sampleRate = 4\<close>,
  \<open>minFrequency = 1\<close>, \<open>maxFrequency = 2\<close>. The period is 2. Index 1 is the first rising
  zero-crossing and the slice starting after it, \<open>[1, 1/2]\<close>, fits in the window; but the
  search limit is \<open>4 - 2 - 2 = 0\<close>, no index is examined, and the cycle is copied from
  offset 0.
\<close>

theorem extract_cycle_counterexample:
  "period [1, - 1, 1, 1 / 2] 4 1 2 = Fin 2 \<and>
   \<not> rising [1, - 1, 1, 1 / 2] 0 \<and> rising [1, - 1, 1, 1 / 2] 1 \<and>
   (1 + 1) + 2 \<le> length [1, - 1, 1, 1 / 2 :: real] \<and>
   take 2 (drop (1 + 1) [1, - 1, 1, 1 / 2 :: real]) = [1, 1 / 2] \<and>
   extractSingleCycle [1, - 1, 1, 1 / 2] 4 1 2 = Inr [Fin 1, Fin (- 1)]"
  by code_simp

subsection \<open>Zero-crossing alignment\<close>

lemma idx_loop_cases:
  "idx_loop arr i = - 1 \<and> (\<forall>j. i \<le> j \<and> j + 1 < length arr \<longrightarrow> \<not> rising arr j) \<or>
   (\<exists>j. idx_loop arr i = int j + 1 \<and> i \<le> j \<and> j + 1 < length arr \<and> rising arr j \<and>
        (\<forall>k. i \<le> k \<and> k < j \<longrightarrow> \<not> rising arr k))"
proof (induction arr i rule: idx_loop.induct)
  case (1 arr i)
  show ?case
  proof (cases "i + 1 < length arr")
    case False
    then have "\<not> int i < int (length arr) - 1"
      by linarith
    then have "idx_loop arr i = - 1"
      by (simp add: idx_loop.simps [of arr i])
    moreover have "\<not> rising arr j" if "i \<le> j \<and> j + 1 < length arr" for j
      using that False by linarith
    ultimately show ?thesis
      by blast
  next
    case True
    then have in_range: "int i < int (length arr) - 1"
      by linarith
    show ?thesis
    proof (cases "rising arr i")
      case crossing: True
      with in_range have "idx_loop arr i = int i + 1"
        by (simp add: idx_loop.simps [of arr i])
      with True crossing show ?thesis
        by (intro disjI2 exI [of _ i]) auto
    next
      case False
      with in_range have step: "idx_loop arr i = idx_loop arr (i + 1)"
        by (simp add: idx_loop.simps [of arr i])
      have skip: "\<not> rising arr k" if "i \<le> k" and "\<not> i + 1 \<le> k" for k
      proof -
        from that have "k = i"
          by linarith
        with False show ?thesis
          by simp
      qed
      from "1.IH" [OF in_range False] show ?thesis
      proof
        assume a: "idx_loop arr (i + 1) = - 1 \<and>
          (\<forall>j. i + 1 \<le> j \<and> j + 1 < length arr \<longrightarrow> \<not> rising arr j)"
        have "\<not> rising arr j" if "i \<le> j \<and> j + 1 < length arr" for j
        proof (cases "i + 1 \<le> j")
          case True
          with a that show ?thesis by blast
        next
          case False
          with that show ?thesis by (intro skip) simp_all
        qed
        with a show ?thesis
          unfolding step by blast
      next
        assume "\<exists>j. idx_loop arr (i + 1) = int j + 1 \<and> i + 1 \<le> j \<and> j + 1 < length arr \<and>
          rising arr j \<and> (\<forall>k. i + 1 \<le> k \<and> k < j \<longrightarrow> \<not> rising arr k)"
        then obtain j where j: "idx_loop arr (i + 1) = int j + 1" "i + 1 \<le> j"
          "j + 1 < length arr" "rising arr j"
          and before: "\<forall>k. i + 1 \<le> k \<and> k < j \<longrightarrow> \<not> rising arr k"
          by blast
        have "\<not> rising arr k" if "i \<le> k \<and> k < j" for k
        proof (cases "i + 1 \<le> k")
          case True
          with before that show ?thesis by blast
        next
          case False
          with that show ?thesis by (intro skip) simp_all
        qed
        moreover from j(2) have "i \<le> j"
          by simp
        ultimately show ?thesis
          unfolding step using j by (intro disjI2 exI [of _ j]) blast
      qed
    qed
  qed
qed

lemma copy_loop_eq:
  assumes "out \<noteq> arr" and "out < length h" and "i \<le> limit"
    and "p + (limit - i) \<le> length (h ! out)"
  shows "copy_loop h arr out i limit p =
     (h[out := map (\<lambda>j. if p \<le> j \<and> j < p + (limit - i)
                          then h ! arr ! (i + (j - p)) else h ! out ! j)
                 [0..<length (h ! out)]],
      p + (limit - i))"
  using assms
proof (induction h arr out i limit p rule: copy_loop.induct)
  case (1 h arr out i limit p)
  show ?case
  proof (cases "i < limit")
    case False
    with "1.prems" have "i = limit"
      by simp
    then have "map (\<lambda>j. if p \<le> j \<and> j < p + (limit - i) then h ! arr ! (i + (j - p)) else h ! out ! j)
                 [0..<length (h ! out)] = h ! out"
      by (auto intro!: nth_equalityI)
    moreover have "copy_loop h arr out i limit p = (h, p)"
      using False by (simp add: copy_loop.simps [of h arr out i])
    ultimately show ?thesis
      using \<open>i = limit\<close> by simp
  next
    case True
    let ?o = "(h ! out)[p := h ! arr ! i]"
    let ?h = "h[out := ?o]"
    have ho: "?h ! out = ?o" and ha: "?h ! arr = h ! arr"
      using "1.prems"(1,2) by simp_all
    have pin: "p < length (h ! out)"
      using True "1.prems"(4) by linarith
    have "copy_loop h arr out i limit p = copy_loop ?h arr out (i + 1) limit (p + 1)"
      using True by (simp add: copy_loop.simps [of h arr out i])
    also have "\<dots> =
       (?h[out := map (\<lambda>j. if p + 1 \<le> j \<and> j < p + 1 + (limit - (i + 1))
                            then ?h ! arr ! (i + 1 + (j - (p + 1))) else ?h ! out ! j)
                   [0..<length (?h ! out)]],
        p + 1 + (limit - (i + 1)))"
      using "1.prems" True by (intro "1.IH" [OF True]) (simp_all add: ho)
    also have "\<dots> =
       (h[out := map (\<lambda>j. if p \<le> j \<and> j < p + (limit - i)
                           then h ! arr ! (i + (j - p)) else h ! out ! j)
                  [0..<length (h ! out)]],
        p + (limit - i))"
    proof -
      have "(if p + 1 \<le> j \<and> j < p + (limit - i)
             then h ! arr ! (i + 1 + (j - (p + 1))) else ?o ! j) =
            (if p \<le> j \<and> j < p + (limit - i) then h ! arr ! (i + (j - p)) else h ! out ! j)"
        if "j < length (h ! out)" for j
      proof (cases "j = p")
        case True
        have c1: "\<not> p + 1 \<le> p"
          by simp
        have c2: "p \<le> p \<and> p < p + (limit - i)"
          using \<open>i < limit\<close> by linarith
        show ?thesis
          unfolding True using pin
          by (simp only: c1 c2 if_True if_False nth_list_update_eq diff_self_eq_0 add_0_right
              simp_thms)
      next
        case False
        then consider "j < p" | "p + 1 \<le> j"
          by linarith
        then show ?thesis
        proof cases
          case 1
          then show ?thesis by simp
        next
          case 2
          then have "i + 1 + (j - (p + 1)) = i + (j - p)"
            by linarith
          moreover have "p \<le> j" and "p \<noteq> j"
            using 2 by linarith+
          ultimately show ?thesis
            using 2 by (simp only: simp_thms nth_list_update_neq)
        qed
      qed
      then have meq: "map (\<lambda>j. if p + 1 \<le> j \<and> j < p + (limit - i)
                           then h ! arr ! (i + 1 + (j - (p + 1))) else ?o ! j)
                   [0..<length (h ! out)] =
                 map (\<lambda>j. if p \<le> j \<and> j < p + (limit - i)
                           then h ! arr ! (i + (j - p)) else h ! out ! j)
                   [0..<length (h ! out)]"
        by simp
      have peq: "p + 1 + (limit - (i + 1)) = p + (limit - i)"
        using True by linarith
      show ?thesis
        by (simp only: ho ha length_list_update list_update_overwrite meq peq cong: if_cong)
    qed
    finally show ?thesis .
  qed
qed

lemma rotate_result:
  assumes "arr < length h"
  shows "rotateToRisingZeroCrossing h arr =
     (h @ [drop (nat (idx_loop (h ! arr) 0)) (h ! arr) @ take (nat (idx_loop (h ! arr) 0)) (h ! arr)],
      length h)"
proof (cases "idx_loop (h ! arr) 0 \<le> 0")
  case True
  then show ?thesis
    by (simp add: rotateToRisingZeroCrossing_def)
next
  case False
  define a where "a = h ! arr"
  define N where "N = length a"
  define k where "k = nat (idx_loop a 0)"
  define out where "out = length h"
  define h1 where "h1 = h @ [replicate N (0::real)]"
  define m1 where "m1 = map (\<lambda>j. if j < N - k then a ! (k + j) else 0) [0..<N]"
  define h2 where "h2 = h1[out := m1]"
  define m2 where "m2 = map (\<lambda>j. if N - k \<le> j then a ! (j - (N - k)) else m1 ! j) [0..<N]"
  from False idx_loop_cases [of a 0] have k: "0 < k" "k < N"
    unfolding a_def k_def N_def by auto
  have ne: "out \<noteq> arr" and o1: "out < length h1"
    using assms by (simp_all add: out_def h1_def)
  have a1: "h1 ! arr = a" and z1: "h1 ! out = replicate N 0"
    using assms by (simp_all add: nth_append h1_def a_def out_def)
  have "copy_loop h1 arr out k N 0 =
      (h1[out := map (\<lambda>j. if 0 \<le> j \<and> j < 0 + (N - k) then h1 ! arr ! (k + (j - 0))
                           else h1 ! out ! j) [0..<length (h1 ! out)]],
       0 + (N - k))"
    using k by (intro copy_loop_eq [OF ne o1]) (simp_all add: z1)
  also have "map (\<lambda>j. if 0 \<le> j \<and> j < 0 + (N - k) then h1 ! arr ! (k + (j - 0))
                       else h1 ! out ! j) [0..<length (h1 ! out)] = m1"
    unfolding m1_def by (simp add: a1 z1 cong: if_cong)
  finally have c1: "copy_loop h1 arr out k N 0 = (h2, N - k)"
    by (simp add: h2_def)
  have o2: "out < length h2" and a2: "h2 ! arr = a" and v2: "h2 ! out = m1"
    using o1 ne a1 by (simp_all add: h2_def)
  have lm1: "length m1 = N"
    by (simp add: m1_def)
  have "copy_loop h2 arr out 0 k (N - k) =
      (h2[out := map (\<lambda>j. if N - k \<le> j \<and> j < N - k + (k - 0)
                           then h2 ! arr ! (0 + (j - (N - k))) else h2 ! out ! j)
                  [0..<length (h2 ! out)]],
       N - k + (k - 0))"
    using k by (intro copy_loop_eq [OF ne o2]) (simp_all add: v2 lm1)
  also have "map (\<lambda>j. if N - k \<le> j \<and> j < N - k + (k - 0)
                       then h2 ! arr ! (0 + (j - (N - k))) else h2 ! out ! j)
                  [0..<length (h2 ! out)] = m2"
    unfolding m2_def using k by (auto simp: a2 v2 lm1)
  also have "h2[out := m2] = h @ [m2]"
    by (simp add: h2_def h1_def out_def)
  finally have c2: "copy_loop h2 arr out 0 k (N - k) = (h @ [m2], N - k + (k - 0))" .
  have final: "m2 = drop k a @ take k a"
  proof (rule nth_equalityI)
    show "length m2 = length (drop k a @ take k a)"
      using k by (simp add: m2_def N_def)
    fix j
    assume "j < length m2"
    then have j: "j < N"
      by (simp add: m2_def)
    show "m2 ! j = (drop k a @ take k a) ! j"
    proof (cases "j < N - k")
      case True
      then show ?thesis
        using j k by (simp add: m2_def m1_def nth_append N_def)
    next
      case False
      then show ?thesis
        using j k by (simp add: m2_def nth_append N_def)
    qed
  qed
  have "rotateToRisingZeroCrossing h arr =
      (case copy_loop h1 arr out k N 0 of
         (h2, p) \<Rightarrow> (case copy_loop h2 arr out 0 k p of (h3, p') \<Rightarrow> (h3, out)))"
    using False unfolding h1_def out_def k_def N_def a_def
    by (simp only: rotateToRisingZeroCrossing_def Let_def if_False)
  also have "\<dots> = (h @ [m2], out)"
    by (simp only: c1 c2 prod.case)
  finally show ?thesis
    unfolding final out_def k_def a_def .
qed

text \<open>
  C10. For a reference \<open>arr\<close> to a non-empty buffer the step returns a reference to a
  new array, the only change to the heap: every array that was there before, the input
  among them, is as it was. The new array has the length of the input and is the input
  rotated by some \<open>k\<close>, that is, read cyclically from index \<open>k\<close>; \<open>k\<close> is 0 or the index
  just after a rising zero-crossing. Without a rising zero-crossing the new array equals
  the input.
\<close>

theorem rotate_is_cyclic_copy:
  assumes "arr < length h" and "h ! arr \<noteq> []"
  shows "\<exists>h' out k. rotateToRisingZeroCrossing h arr = (h', out) \<and>
     out = length h \<and> length h' = length h + 1 \<and> (\<forall>a<length h. h' ! a = h ! a) \<and>
     length (h' ! out) = length (h ! arr) \<and>
     k < length (h ! arr) \<and> (k = 0 \<or> rising (h ! arr) (k - 1)) \<and>
     h' ! out = rotate k (h ! arr) \<and>
     (\<forall>j<length (h ! arr). h' ! out ! j = h ! arr ! ((k + j) mod length (h ! arr))) \<and>
     ((\<forall>i. i + 1 < length (h ! arr) \<longrightarrow> \<not> rising (h ! arr) i) \<longrightarrow> h' ! out = h ! arr)"
proof -
  let ?a = "h ! arr"
  let ?k = "nat (idx_loop ?a 0)"
  let ?r = "drop ?k ?a @ take ?k ?a"
  have res: "rotateToRisingZeroCrossing h arr = (h @ [?r], length h)"
    using assms(1) by (rule rotate_result)
  from idx_loop_cases [of ?a 0]
  consider (none) "idx_loop ?a 0 = - 1"
    | (found) j where "idx_loop ?a 0 = int j + 1" "j + 1 < length ?a" "rising ?a j"
    by blast
  then have "?k < length ?a \<and> (?k = 0 \<or> rising ?a (?k - 1)) \<and>
      ((\<forall>i. i + 1 < length ?a \<longrightarrow> \<not> rising ?a i) \<longrightarrow> ?k = 0)"
  proof cases
    case none
    then have "?k = 0"
      by simp
    with assms(2) show ?thesis
      by simp
  next
    case found
    then have "?k = j + 1"
      by simp
    with found(2,3) show ?thesis
      by auto
  qed
  then have k: "?k < length ?a" and at: "?k = 0 \<or> rising ?a (?k - 1)"
    and none: "(\<forall>i. i + 1 < length ?a \<longrightarrow> \<not> rising ?a i) \<longrightarrow> ?k = 0"
    by blast+
  have rot: "?r = rotate ?k ?a"
    using k by (simp add: rotate_drop_take)
  have cyc: "\<forall>j<length ?a. ?r ! j = ?a ! ((?k + j) mod length ?a)"
    unfolding rot by (simp add: nth_rotate)
  have same: "(\<forall>i. i + 1 < length ?a \<longrightarrow> \<not> rising ?a i) \<longrightarrow> ?r = ?a"
    using none by auto
  have old: "\<forall>a<length h. (h @ [?r]) ! a = h ! a"
    by (simp add: nth_append)
  have new: "(h @ [?r]) ! length h = ?r"
    by simp
  have len: "length ?r = length ?a"
    by simp
  show ?thesis
    apply (rule exI [of _ "h @ [?r]"])
    apply (rule exI [of _ "length h"])
    apply (rule exI [of _ ?k])
    using res k at cyc same old len rot
    apply (simp only: new)
    apply simp
    done
qed

theorem rotate_is_cyclic_copy_witness:
  "(0::nat) < length [[1, - 1, - 2, 3 :: real]] \<and> [[1, - 1, - 2, 3 :: real]] ! 0 \<noteq> [] \<and>
   rotateToRisingZeroCrossing [[1, - 1, - 2, 3]] 0 = ([[1, - 1, - 2, 3], [3, 1, - 1, - 2]], 1) \<and>
   rotateToRisingZeroCrossing [[1, 2, 3]] 0 = ([[1, 2, 3], [1, 2, 3]], 1)"
proof -
  have v: "rotateToRisingZeroCrossing [[1, - 1, - 2, 3]] 0 =
      ([[1, - 1, - 2, 3], [3, 1, - 1, - 2]], 1)"
    "rotateToRisingZeroCrossing [[1, 2, 3]] 0 = ([[1, 2, 3], [1, 2, 3]], 1)"
    by code_simp+
  have h: "(0::nat) < length [[1, - 1, - 2, 3 :: real]]" "[[1, - 1, - 2, 3 :: real]] ! 0 \<noteq> []"
    by simp_all
  from rotate_is_cyclic_copy [OF h] obtain h' out where
    "rotateToRisingZeroCrossing [[1, - 1, - 2, 3]] 0 = (h', out)" and "out = 1"
    by auto
  with v h show ?thesis
    by simp
qed

end
